theory Spec2Isabelle
  imports Main "HOL-Library.Sublist"
begin

section \<open>Roulette betting strategies of \<^verbatim>\<open>Project_functions.py\<close>\<close>

subsection \<open>Data model\<close>

text \<open>
  The four even-money bets. Every dictionary of the source that is keyed by the four
  names \<^verbatim>\<open>"red"\<close>, \<^verbatim>\<open>"black"\<close>, \<^verbatim>\<open>"even"\<close>, \<^verbatim>\<open>"odd"\<close> (and by nothing else) is a
  total function on \<open>bet_type\<close>; \<open>bet_types\<close> is the insertion order of these
  dictionaries, which is the order \<^verbatim>\<open>.keys()\<close> iterates them in.
\<close>

datatype bet_type = Red | Black | Even | Odd

definition bet_types :: "bet_type list" where
  "bet_types = [Red, Black, Even, Odd]"

text \<open>
  One row of the data frame: the four columns \<^verbatim>\<open>"Red Bet Win"\<close>, \<^verbatim>\<open>"Black Bet Win"\<close>,
  \<^verbatim>\<open>"Even Bet Win"\<close> and \<^verbatim>\<open>"Odd Bet Win"\<close>. The source tests a column with \<^verbatim>\<open>== 1\<close>,
  so a column holds an integer and every value other than 1 counts as a loss.
\<close>

record row =
  red_bet_win :: int
  black_bet_win :: int
  even_bet_win :: int
  odd_bet_win :: int

text \<open>\<^verbatim>\<open>row[f"{bet_type.capitalize()} Bet Win"]\<close>\<close>

fun bet_win :: "row \<Rightarrow> bet_type \<Rightarrow> int" where
  "bet_win r Red = red_bet_win r"
| "bet_win r Black = black_bet_win r"
| "bet_win r Even = even_bet_win r"
| "bet_win r Odd = odd_bet_win r"

subsection \<open>Python lists, dictionaries and loops\<close>

datatype py_error = IndexError | KeyError | ValueError

text \<open>
  \<^verbatim>\<open>xs[i]\<close> on a Python list: an index from \<open>0\<close> counts from the front, a negative
  one from the back, and anything outside raises \<^verbatim>\<open>IndexError\<close>.
\<close>

definition py_index :: "'a list \<Rightarrow> int \<Rightarrow> py_error + 'a" where
  "py_index xs i =
     (if 0 \<le> i \<and> i < int (length xs) then Inr (xs ! nat i)
      else if i < 0 \<and> - int (length xs) \<le> i then Inr (xs ! nat (int (length xs) + i))
      else Inl IndexError)"

text \<open>\<^verbatim>\<open>d[k]\<close> on a dictionary whose keys are not fixed by a type: a missing key raises.\<close>

definition py_lookup :: "('k \<rightharpoonup> 'v) \<Rightarrow> 'k \<Rightarrow> py_error + 'v" where
  "py_lookup d k = (case d k of None \<Rightarrow> Inl KeyError | Some v \<Rightarrow> Inr v)"

text \<open>Sequencing of two steps of which the first may raise.\<close>

definition py_then :: "py_error + 'a \<Rightarrow> ('a \<Rightarrow> py_error + 'b) \<Rightarrow> py_error + 'b" where
  "py_then r f = (case r of Inl e \<Rightarrow> Inl e | Inr v \<Rightarrow> f v)"

text \<open>
  \<^verbatim>\<open>for x in xs: body\<close>, with the variables the body assigns as the state \<open>s\<close>. An
  exception in the body leaves the loop (and the function) at once.
\<close>

fun for_each :: "'a list \<Rightarrow> ('s \<Rightarrow> 'a \<Rightarrow> py_error + 's) \<Rightarrow> 's \<Rightarrow> py_error + 's" where
  "for_each [] body s = Inr s"
| "for_each (x # xs) body s = py_then (body s x) (for_each xs body)"

text \<open>
  \<^verbatim>\<open>d[bet_type].append(d[bet_type][-1] + delta)\<close> on a dictionary \<open>d\<close> of balance
  lists: the read of the last element raises on an empty list.
\<close>

definition append_balance ::
  "(bet_type \<Rightarrow> int list) \<Rightarrow> bet_type \<Rightarrow> int \<Rightarrow> py_error + (bet_type \<Rightarrow> int list)" where
  "append_balance d bt delta =
     py_then (py_index (d bt) (- 1)) (\<lambda>prev. Inr (d(bt := d bt @ [prev + delta])))"

subsection \<open>\<^verbatim>\<open>no_strategy\<close>\<close>

text \<open>
  \<^verbatim>\<open>random.randint(a, b)\<close> of Python's standard library. It raises \<^verbatim>\<open>ValueError\<close> on an
  empty range and otherwise returns \<^verbatim>\<open>a + randbelow(b - a + 1)\<close>: an integer \<open>N\<close> with
  \<open>a \<le> N \<le> b\<close>, each of the \<open>b - a + 1\<close> values being as likely as any other. The
  generator is the only effect of the program besides its result: \<open>entropy k\<close> is the raw
  outcome the generator produces for the \<open>k\<close>-th call of the run (counting from 0), and
  the call reduces it to one of the \<open>b - a + 1\<close> values. Every value of the range is
  returned for some raw outcome, and nothing but the raw outcome of the call itself
  enters the value.
\<close>

definition py_randint :: "(nat \<Rightarrow> nat) \<Rightarrow> nat \<Rightarrow> int \<Rightarrow> int \<Rightarrow> py_error + int" where
  "py_randint entropy k a b =
     (if b < a then Inl ValueError else Inr (a + int (entropy k mod nat (b - a + 1))))"

text \<open>
  The variables of \<^verbatim>\<open>no_strategy\<close> are the balances and the generator, of which
  \<open>rng_calls\<close> counts the calls made so far. The loop runs over
  \<^verbatim>\<open>enumerate(data.iterrows())\<close>, so its element is the pair of the spin number and the
  row. One \<^verbatim>\<open>bet\<close> is computed per spin,
  \<^verbatim>\<open>initial_bet if spin == 0 else random.randint(5, 20)\<close>, and used by all four appends.
\<close>

record no_strategy_vars =
  ns_balances :: "bet_type \<Rightarrow> int list"
  rng_calls :: nat

definition no_strategy_init :: no_strategy_vars where
  "no_strategy_init = \<lparr>ns_balances = (\<lambda>bt. [0]), rng_calls = 0\<rparr>"

definition no_strategy_body ::
  "(nat \<Rightarrow> nat) \<Rightarrow> int \<Rightarrow> no_strategy_vars \<Rightarrow> nat \<times> row \<Rightarrow> py_error + no_strategy_vars" where
  "no_strategy_body entropy initial_bet s sr =
     (let spin = fst sr; r = snd sr;
          calls = (if spin = 0 then rng_calls s else Suc (rng_calls s))
      in
        py_then (if spin = 0 then Inr initial_bet
                 else py_randint entropy (rng_calls s) 5 20) (\<lambda>bet.
        py_then (append_balance (ns_balances s) Red
                   (if red_bet_win r = 1 then bet else - bet)) (\<lambda>b1.
        py_then (append_balance b1 Black
                   (if black_bet_win r = 1 then bet else - bet)) (\<lambda>b2.
        py_then (append_balance b2 Even
                   (if even_bet_win r = 1 then bet else - bet)) (\<lambda>b3.
        py_then (append_balance b3 Odd
                   (if odd_bet_win r = 1 then bet else - bet)) (\<lambda>b4.
        Inr \<lparr>ns_balances = b4, rng_calls = calls\<rparr>))))))"

definition no_strategy_run ::
  "(nat \<Rightarrow> nat) \<Rightarrow> row list \<Rightarrow> int \<Rightarrow> py_error + no_strategy_vars" where
  "no_strategy_run entropy data initial_bet =
     for_each (enumerate 0 data) (no_strategy_body entropy initial_bet) no_strategy_init"

definition no_strategy ::
  "(nat \<Rightarrow> nat) \<Rightarrow> row list \<Rightarrow> int \<Rightarrow> py_error + (bet_type \<Rightarrow> int list)" where
  "no_strategy entropy data initial_bet =
     py_then (no_strategy_run entropy data initial_bet) (\<lambda>s. Inr (ns_balances s))"

subsection \<open>\<^verbatim>\<open>martingale_strategy\<close> and \<^verbatim>\<open>d_alembert_strategy\<close>\<close>

text \<open>Both keep the two dictionaries \<^verbatim>\<open>balances\<close> and \<^verbatim>\<open>bets\<close>.\<close>

record bet_vars =
  balances :: "bet_type \<Rightarrow> int list"
  bets :: "bet_type \<Rightarrow> int"

definition bet_vars_init :: "int \<Rightarrow> bet_vars" where
  "bet_vars_init initial_bet = \<lparr>balances = (\<lambda>bt. [0]), bets = (\<lambda>bt. initial_bet)\<rparr>"

definition martingale_body :: "int \<Rightarrow> row \<Rightarrow> bet_vars \<Rightarrow> bet_type \<Rightarrow> py_error + bet_vars" where
  "martingale_body initial_bet r s bet_type =
     (let bet = bets s bet_type in
        if bet_win r bet_type = 1 then
          py_then (append_balance (balances s) bet_type bet) (\<lambda>b.
            Inr \<lparr>balances = b, bets = (bets s)(bet_type := initial_bet)\<rparr>)
        else
          py_then (append_balance (balances s) bet_type (- bet)) (\<lambda>b.
            Inr \<lparr>balances = b, bets = (bets s)(bet_type := bets s bet_type * 2)\<rparr>))"

definition martingale_run :: "row list \<Rightarrow> int \<Rightarrow> py_error + bet_vars" where
  "martingale_run data initial_bet =
     for_each data (\<lambda>s r. for_each bet_types (martingale_body initial_bet r) s)
       (bet_vars_init initial_bet)"

definition martingale_strategy :: "row list \<Rightarrow> int \<Rightarrow> py_error + (bet_type \<Rightarrow> int list)" where
  "martingale_strategy data initial_bet =
     py_then (martingale_run data initial_bet) (\<lambda>s. Inr (balances s))"

definition d_alembert_body :: "int \<Rightarrow> row \<Rightarrow> bet_vars \<Rightarrow> bet_type \<Rightarrow> py_error + bet_vars" where
  "d_alembert_body initial_bet r s bet_type =
     (let bet = bets s bet_type in
        if bet_win r bet_type = 1 then
          py_then (append_balance (balances s) bet_type bet) (\<lambda>b.
            Inr \<lparr>balances = b, bets = (bets s)(bet_type := max initial_bet (bet - initial_bet))\<rparr>)
        else
          py_then (append_balance (balances s) bet_type (- bet)) (\<lambda>b.
            Inr \<lparr>balances = b, bets = (bets s)(bet_type := bets s bet_type + initial_bet)\<rparr>))"

definition d_alembert_run :: "row list \<Rightarrow> int \<Rightarrow> py_error + bet_vars" where
  "d_alembert_run data initial_bet =
     for_each data (\<lambda>s r. for_each bet_types (d_alembert_body initial_bet r) s)
       (bet_vars_init initial_bet)"

definition d_alembert_strategy :: "row list \<Rightarrow> int \<Rightarrow> py_error + (bet_type \<Rightarrow> int list)" where
  "d_alembert_strategy data initial_bet =
     py_then (d_alembert_run data initial_bet) (\<lambda>s. Inr (balances s))"

subsection \<open>\<^verbatim>\<open>fibonacci_strategy\<close>\<close>

record fib_vars =
  fib_balances :: "bet_type \<Rightarrow> int list"
  sequences :: "bet_type \<Rightarrow> int list"
  indices :: "bet_type \<Rightarrow> int"

definition fib_vars_init :: fib_vars where
  "fib_vars_init = \<lparr>fib_balances = (\<lambda>bt. [0]), sequences = (\<lambda>bt. [1, 1]), indices = (\<lambda>bt. 0)\<rparr>"

text \<open>
  The extension on a loss:
  \<^verbatim>\<open>if indices[bet_type] >= len(sequences[bet_type]): sequences[bet_type].append(...)\<close>,
  with the index already incremented. The two reads from the back raise on a sequence
  shorter than two.
\<close>

definition extend_sequence :: "int list \<Rightarrow> int \<Rightarrow> py_error + int list" where
  "extend_sequence sq new_index =
     (if new_index \<ge> int (length sq) then
        py_then (py_index sq (- 1)) (\<lambda>a.
        py_then (py_index sq (- 2)) (\<lambda>b. Inr (sq @ [a + b])))
      else Inr sq)"

definition fibonacci_body :: "int \<Rightarrow> row \<Rightarrow> fib_vars \<Rightarrow> bet_type \<Rightarrow> py_error + fib_vars" where
  "fibonacci_body initial_bet r s bet_type =
     (let current_index = indices s bet_type in
        py_then (py_index (sequences s bet_type) current_index) (\<lambda>term.
          let bet = term * initial_bet in
            if bet_win r bet_type = 1 then
              py_then (append_balance (fib_balances s) bet_type bet) (\<lambda>b.
                Inr \<lparr>fib_balances = b, sequences = sequences s,
                     indices = (indices s)(bet_type := max 0 (current_index - 2))\<rparr>)
            else
              py_then (append_balance (fib_balances s) bet_type (- bet)) (\<lambda>b.
              py_then (extend_sequence (sequences s bet_type) (indices s bet_type + 1)) (\<lambda>sq.
                Inr \<lparr>fib_balances = b, sequences = (sequences s)(bet_type := sq),
                     indices = (indices s)(bet_type := indices s bet_type + 1)\<rparr>))))"

definition fibonacci_run :: "row list \<Rightarrow> int \<Rightarrow> py_error + fib_vars" where
  "fibonacci_run data initial_bet =
     for_each data (\<lambda>s r. for_each bet_types (fibonacci_body initial_bet r) s) fib_vars_init"

definition fibonacci_strategy :: "row list \<Rightarrow> int \<Rightarrow> py_error + (bet_type \<Rightarrow> int list)" where
  "fibonacci_strategy data initial_bet =
     py_then (fibonacci_run data initial_bet) (\<lambda>s. Inr (fib_balances s))"

subsection \<open>The variants with table limits\<close>

text \<open>
  \<^verbatim>\<open>results\<close> is keyed by the limits of the list \<^verbatim>\<open>table_limits\<close>; the comprehension
  stores one entry per element, a later equal key replacing the earlier one.
\<close>

type_synonym results = "int \<rightharpoonup> (bet_type \<Rightarrow> int list)"

definition results_init :: "int list \<Rightarrow> results" where
  "results_init table_limits = foldl (\<lambda>d limit. d(limit \<mapsto> (\<lambda>bt. [0]))) Map.empty table_limits"

text \<open>
  \<^verbatim>\<open>results[table_limit][bet_type].append(results[table_limit][bet_type][-1] + delta)\<close>
\<close>

definition append_result :: "results \<Rightarrow> int \<Rightarrow> bet_type \<Rightarrow> int \<Rightarrow> py_error + results" where
  "append_result res table_limit bt delta =
     py_then (py_lookup res table_limit) (\<lambda>d.
     py_then (append_balance d bt delta) (\<lambda>d'. Inr (res(table_limit \<mapsto> d'))))"

record limit_bet_vars =
  results :: results
  limit_bets :: "bet_type \<Rightarrow> int"

definition martingale_limit_body ::
  "int \<Rightarrow> int \<Rightarrow> row \<Rightarrow> limit_bet_vars \<Rightarrow> bet_type \<Rightarrow> py_error + limit_bet_vars" where
  "martingale_limit_body initial_bet table_limit r s bet_type =
     (let bet = min (limit_bets s bet_type) table_limit in
        if bet_win r bet_type = 1 then
          py_then (append_result (results s) table_limit bet_type bet) (\<lambda>res.
            Inr \<lparr>results = res, limit_bets = (limit_bets s)(bet_type := initial_bet)\<rparr>)
        else
          py_then (append_result (results s) table_limit bet_type (- bet)) (\<lambda>res.
            Inr \<lparr>results = res,
                 limit_bets = (limit_bets s)(bet_type := min (limit_bets s bet_type * 2) table_limit)\<rparr>))"

text \<open>The body of \<^verbatim>\<open>for table_limit in table_limits\<close>: fresh bets, then the loop over the spins.\<close>

definition martingale_limit_run ::
  "row list \<Rightarrow> int \<Rightarrow> int \<Rightarrow> results \<Rightarrow> py_error + limit_bet_vars" where
  "martingale_limit_run data initial_bet table_limit res =
     for_each data (\<lambda>s r. for_each bet_types (martingale_limit_body initial_bet table_limit r) s)
       \<lparr>results = res, limit_bets = (\<lambda>bt. initial_bet)\<rparr>"

text \<open>
  One pass of \<^verbatim>\<open>for table_limit in table_limits\<close>: of the variables of the pass only
  \<^verbatim>\<open>results\<close> lives on.
\<close>

definition martingale_limit_iteration ::
  "row list \<Rightarrow> int \<Rightarrow> results \<Rightarrow> int \<Rightarrow> py_error + results" where
  "martingale_limit_iteration data initial_bet res table_limit =
     py_then (martingale_limit_run data initial_bet table_limit res) (\<lambda>s. Inr (results s))"

definition martingale_strategy_with_table_limits ::
  "row list \<Rightarrow> int \<Rightarrow> int list \<Rightarrow> py_error + results" where
  "martingale_strategy_with_table_limits data initial_bet table_limits =
     for_each table_limits (martingale_limit_iteration data initial_bet)
       (results_init table_limits)"

record limit_fib_vars =
  fib_results :: results
  limit_sequences :: "bet_type \<Rightarrow> int list"
  limit_indices :: "bet_type \<Rightarrow> int"

definition fibonacci_limit_body ::
  "int \<Rightarrow> int \<Rightarrow> row \<Rightarrow> limit_fib_vars \<Rightarrow> bet_type \<Rightarrow> py_error + limit_fib_vars" where
  "fibonacci_limit_body initial_bet table_limit r s bet_type =
     (let current_index = limit_indices s bet_type in
        py_then (py_index (limit_sequences s bet_type) current_index) (\<lambda>term.
          let bet = min (term * initial_bet) table_limit in
            if bet_win r bet_type = 1 then
              py_then (append_result (fib_results s) table_limit bet_type bet) (\<lambda>res.
                Inr \<lparr>fib_results = res, limit_sequences = limit_sequences s,
                     limit_indices = (limit_indices s)(bet_type := max 0 (current_index - 2))\<rparr>)
            else
              py_then (append_result (fib_results s) table_limit bet_type (- bet)) (\<lambda>res.
              py_then (extend_sequence (limit_sequences s bet_type) (limit_indices s bet_type + 1)) (\<lambda>sq.
                Inr \<lparr>fib_results = res, limit_sequences = (limit_sequences s)(bet_type := sq),
                     limit_indices = (limit_indices s)(bet_type := limit_indices s bet_type + 1)\<rparr>))))"

definition fibonacci_limit_run ::
  "row list \<Rightarrow> int \<Rightarrow> int \<Rightarrow> results \<Rightarrow> py_error + limit_fib_vars" where
  "fibonacci_limit_run data initial_bet table_limit res =
     for_each data (\<lambda>s r. for_each bet_types (fibonacci_limit_body initial_bet table_limit r) s)
       \<lparr>fib_results = res, limit_sequences = (\<lambda>bt. [1, 1]), limit_indices = (\<lambda>bt. 0)\<rparr>"

definition fibonacci_limit_iteration ::
  "row list \<Rightarrow> int \<Rightarrow> results \<Rightarrow> int \<Rightarrow> py_error + results" where
  "fibonacci_limit_iteration data initial_bet res table_limit =
     py_then (fibonacci_limit_run data initial_bet table_limit res) (\<lambda>s. Inr (fib_results s))"

definition fibonacci_strategy_with_table_limits ::
  "row list \<Rightarrow> int \<Rightarrow> int list \<Rightarrow> py_error + results" where
  "fibonacci_strategy_with_table_limits data initial_bet table_limits =
     for_each table_limits (fibonacci_limit_iteration data initial_bet)
       (results_init table_limits)"

text \<open>
  What a caller reads as \<^verbatim>\<open>strategy(data, initial_bet)[bet_type]\<close> and as
  \<^verbatim>\<open>strategy(data, initial_bet, table_limits)[table_limit][bet_type]\<close> (the plotting
  routines do both).
\<close>

definition trajectory :: "py_error + (bet_type \<Rightarrow> int list) \<Rightarrow> bet_type \<Rightarrow> py_error + int list" where
  "trajectory r bt = py_then r (\<lambda>b. Inr (b bt))"

definition limit_trajectory :: "py_error + results \<Rightarrow> int \<Rightarrow> bet_type \<Rightarrow> py_error + int list" where
  "limit_trajectory r table_limit bt =
     py_then r (\<lambda>res. py_then (py_lookup res table_limit) (\<lambda>d. Inr (d bt)))"

section \<open>Auxiliary definitions for the proofs\<close>

text \<open>
  The loops interleave the four bet types, but the body for one bet type reads and
  writes only that bet type's entries. The part of the loop variables that belongs to
  one bet type is its track; the functions below say how one spin rewrites a track,
  given the value of the win column.
\<close>

definition bet_track :: "bet_vars \<Rightarrow> bet_type \<Rightarrow> int list \<times> int" where
  "bet_track s bt = (balances s bt, bets s bt)"

definition nonempty_balances :: "bet_vars \<Rightarrow> bool" where
  "nonempty_balances s = (\<forall>bt. balances s bt \<noteq> [])"

definition martingale_track :: "int \<Rightarrow> int \<Rightarrow> int list \<times> int \<Rightarrow> int list \<times> int" where
  "martingale_track initial_bet flag t =
     (if flag = 1 then (fst t @ [last (fst t) + snd t], initial_bet)
      else (fst t @ [last (fst t) - snd t], snd t * 2))"

definition d_alembert_track :: "int \<Rightarrow> int \<Rightarrow> int list \<times> int \<Rightarrow> int list \<times> int" where
  "d_alembert_track initial_bet flag t =
     (if flag = 1 then (fst t @ [last (fst t) + snd t], max initial_bet (snd t - initial_bet))
      else (fst t @ [last (fst t) - snd t], snd t + initial_bet))"

text \<open>Two spins used in the examples: every bet wins, every bet loses.\<close>

definition all_win :: row where
  "all_win = \<lparr>red_bet_win = 1, black_bet_win = 1, even_bet_win = 1, odd_bet_win = 1\<rparr>"

definition all_loss :: row where
  "all_loss = \<lparr>red_bet_win = 0, black_bet_win = 0, even_bet_win = 0, odd_bet_win = 0\<rparr>"

text \<open>
  The Fibonacci loops. \<open>fib_progress\<close> is what one spin does to the sequence and the
  index of a bet type, \<open>fib_track\<close> adds the balance list; \<open>clamp\<close> is the identity for
  \<^verbatim>\<open>fibonacci_strategy\<close> and \<open>\<lambda>x. min x table_limit\<close> for the variant with table limits.
\<close>

definition extended :: "int list \<Rightarrow> int \<Rightarrow> int list" where
  "extended sq i =
     (if int (length sq) \<le> i + 1 then sq @ [last sq + sq ! (length sq - 2)] else sq)"

definition fib_progress :: "int \<Rightarrow> int list \<times> int \<Rightarrow> int list \<times> int" where
  "fib_progress flag p =
     (if flag = 1 then (fst p, max 0 (snd p - 2)) else (extended (fst p) (snd p), snd p + 1))"

definition fib_track ::
  "(int \<Rightarrow> int) \<Rightarrow> int \<Rightarrow> int \<Rightarrow> int list \<times> int list \<times> int \<Rightarrow> int list \<times> int list \<times> int" where
  "fib_track clamp initial_bet flag t =
     (let bet = clamp (fst (snd t) ! nat (snd (snd t)) * initial_bet)
      in (fst t @ [if flag = 1 then last (fst t) + bet else last (fst t) - bet],
          fib_progress flag (snd t)))"

definition progress_ok :: "int list \<times> int \<Rightarrow> bool" where
  "progress_ok p = (2 \<le> length (fst p) \<and> 0 \<le> snd p \<and> snd p < int (length (fst p)))"

definition fib_track_of :: "fib_vars \<Rightarrow> bet_type \<Rightarrow> int list \<times> int list \<times> int" where
  "fib_track_of s bt = (fib_balances s bt, sequences s bt, indices s bt)"

definition fib_vars_ok :: "fib_vars \<Rightarrow> bool" where
  "fib_vars_ok s = (\<forall>bt. fib_balances s bt \<noteq> [] \<and> progress_ok (sequences s bt, indices s bt))"

text \<open>
  The classic Fibonacci sequence seeded \<open>[1, 1]\<close>, written from the specification's
  words: each term from the third on is the sum of the two before it.
\<close>

fun classic_fib :: "nat \<Rightarrow> int" where
  "classic_fib 0 = 1"
| "classic_fib (Suc 0) = 1"
| "classic_fib (Suc (Suc n)) = classic_fib (Suc n) + classic_fib n"

definition fib_prefix :: "int list \<Rightarrow> bool" where
  "fib_prefix sq = (sq = map classic_fib [0..<length sq])"

text \<open>
  The loops with a table limit. \<open>balances_at res table_limit\<close> is the dictionary of
  balance lists stored under a limit, and \<open>results_ready\<close> says that the limit is a key
  of \<^verbatim>\<open>results\<close> whose four lists are not empty.
\<close>

definition balances_at :: "results \<Rightarrow> int \<Rightarrow> bet_type \<Rightarrow> int list" where
  "balances_at res table_limit bt = (case res table_limit of None \<Rightarrow> [] | Some d \<Rightarrow> d bt)"

definition results_ready :: "results \<Rightarrow> int \<Rightarrow> bool" where
  "results_ready res table_limit =
     (res table_limit \<noteq> None \<and> (\<forall>bt. balances_at res table_limit bt \<noteq> []))"

definition limit_track_of :: "int \<Rightarrow> limit_bet_vars \<Rightarrow> bet_type \<Rightarrow> int list \<times> int" where
  "limit_track_of table_limit s bt = (balances_at (results s) table_limit bt, limit_bets s bt)"

definition limit_vars_ok :: "int \<Rightarrow> results \<Rightarrow> limit_bet_vars \<Rightarrow> bool" where
  "limit_vars_ok table_limit res0 s =
     (results_ready (results s) table_limit \<and>
      (\<forall>k. k = table_limit \<or> results s k = res0 k))"

definition martingale_limit_track ::
  "int \<Rightarrow> int \<Rightarrow> int \<Rightarrow> int list \<times> int \<Rightarrow> int list \<times> int" where
  "martingale_limit_track initial_bet table_limit flag t =
     (if flag = 1 then (fst t @ [last (fst t) + min (snd t) table_limit], initial_bet)
      else (fst t @ [last (fst t) - min (snd t) table_limit], min (snd t * 2) table_limit))"

definition fib_limit_track_of ::
  "int \<Rightarrow> limit_fib_vars \<Rightarrow> bet_type \<Rightarrow> int list \<times> int list \<times> int" where
  "fib_limit_track_of table_limit s bt =
     (balances_at (fib_results s) table_limit bt, limit_sequences s bt, limit_indices s bt)"

definition fib_limit_vars_ok :: "int \<Rightarrow> results \<Rightarrow> limit_fib_vars \<Rightarrow> bool" where
  "fib_limit_vars_ok table_limit res0 s =
     (results_ready (fib_results s) table_limit \<and>
      (\<forall>k. k = table_limit \<or> fib_results s k = res0 k) \<and>
      (\<forall>bt. progress_ok (limit_sequences s bt, limit_indices s bt)))"

section \<open>Loops and list accesses\<close>

lemma py_then_Inr [simp]: "py_then (Inr v) f = f v"
  by (simp add: py_then_def)

lemma py_then_Inl [simp]: "py_then (Inl e) f = Inl e"
  by (simp add: py_then_def)

lemma py_index_last: "xs \<noteq> [] \<Longrightarrow> py_index xs (- 1) = Inr (last xs)"
  by (cases xs rule: rev_cases) (auto simp: py_index_def nat_add_distrib)

lemma py_index_last_but_one:
  "2 \<le> length xs \<Longrightarrow> py_index xs (- 2) = Inr (xs ! (length xs - 2))"
  by (auto simp: py_index_def nat_diff_distrib)

lemma py_index_nat: "0 \<le> i \<Longrightarrow> i < int (length xs) \<Longrightarrow> py_index xs i = Inr (xs ! nat i)"
  by (simp add: py_index_def)

lemma append_balance_ok:
  "d bt \<noteq> [] \<Longrightarrow> append_balance d bt delta = Inr (d(bt := d bt @ [last (d bt) + delta]))"
  by (simp add: append_balance_def py_index_last)

text \<open>
  A loop over \<open>xs @ ys\<close> is the loop over \<open>xs\<close> followed by the loop over \<open>ys\<close>. So the
  variables of a run over \<open>rows @ r # rest\<close>, at the moment the spins \<open>rows\<close> are done, are
  the result of the run over \<open>rows\<close>; the theorems below speak of the run over \<open>rows\<close> and
  of the run over \<open>rows @ [r]\<close> for this reason.
\<close>

lemma for_each_append:
  "for_each (xs @ ys) body s = py_then (for_each xs body s) (for_each ys body)"
proof (induction xs arbitrary: s)
  case Nil
  show ?case by simp
next
  case (Cons x xs)
  show ?case
  proof (cases "body s x")
    case (Inl e)
    then show ?thesis by simp
  next
    case (Inr s')
    then show ?thesis using Cons.IH [of s'] by simp
  qed
qed

lemma for_each_snoc:
  "for_each (xs @ [x]) body s = py_then (for_each xs body s) (\<lambda>s'. body s' x)"
proof -
  have "for_each [x] body = (\<lambda>s'. body s' x)"
  proof
    fix s' show "for_each [x] body s' = body s' x"
      by (cases "body s' x") simp_all
  qed
  then show ?thesis by (simp add: for_each_append)
qed

lemma for_each_invariant:
  assumes step: "\<And>s x. x \<in> set xs \<Longrightarrow> I s \<Longrightarrow> \<exists>s'. body s x = Inr s' \<and> I s'"
    and init: "I s"
  shows "\<exists>s'. for_each xs body s = Inr s' \<and> I s'"
  using assms
proof (induction xs arbitrary: s)
  case Nil
  then show ?case by simp
next
  case (Cons x xs)
  from Cons.prems obtain s1 where s1: "body s x = Inr s1" "I s1"
    by (meson list.set_intros(1))
  have "\<exists>s'. for_each xs body s1 = Inr s' \<and> I s'"
    by (rule Cons.IH) (use Cons.prems s1 in auto)
  with s1 show ?case by simp
qed

text \<open>
  A loop over distinct keys whose body, at key \<open>k\<close>, rewrites only the part of the
  state that belongs to \<open>k\<close> (its projection \<open>proj s k\<close>), by a function \<open>F k\<close>.
\<close>

lemma for_each_keys:
  assumes step: "\<And>s k. k \<in> set ks \<Longrightarrow> I s \<Longrightarrow>
      \<exists>s'. body s k = Inr s' \<and> I s' \<and> (\<forall>j. proj s' j = (if j = k then F k (proj s j) else proj s j))"
    and dist: "distinct ks"
    and init: "I s"
  shows "\<exists>s'. for_each ks body s = Inr s' \<and> I s' \<and>
      (\<forall>j. proj s' j = (if j \<in> set ks then F j (proj s j) else proj s j))"
  using assms
proof (induction ks arbitrary: s)
  case Nil
  then show ?case by simp
next
  case (Cons k ks)
  from Cons.prems(1) [of k s] Cons.prems(3) obtain s1 where s1: "body s k = Inr s1" "I s1"
    "\<forall>j. proj s1 j = (if j = k then F k (proj s j) else proj s j)"
    by auto
  have "\<exists>s'. for_each ks body s1 = Inr s' \<and> I s' \<and>
      (\<forall>j. proj s' j = (if j \<in> set ks then F j (proj s1 j) else proj s1 j))"
    by (rule Cons.IH) (use Cons.prems s1 in auto)
  then obtain s2 where s2: "for_each ks body s1 = Inr s2" "I s2"
    "\<forall>j. proj s2 j = (if j \<in> set ks then F j (proj s1 j) else proj s1 j)"
    by blast
  have "\<forall>j. proj s2 j = (if j \<in> set (k # ks) then F j (proj s j) else proj s j)"
    using s1(3) s2(3) Cons.prems(2) by auto
  with s1 s2 show ?case by simp
qed

text \<open>A loop whose body rewrites every projection by a function of the loop element.\<close>

lemma for_each_fold:
  assumes step: "\<And>s x. I s \<Longrightarrow> \<exists>s'. body s x = Inr s' \<and> I s' \<and> (\<forall>j. proj s' j = G x j (proj s j))"
    and init: "I s"
  shows "\<exists>s'. for_each xs body s = Inr s' \<and> I s' \<and>
      (\<forall>j. proj s' j = foldl (\<lambda>t x. G x j t) (proj s j) xs)"
  using init
proof (induction xs arbitrary: s)
  case Nil
  then show ?case by simp
next
  case (Cons x xs)
  from step [OF Cons.prems, of x] obtain s1 where s1: "body s x = Inr s1" "I s1"
    "\<forall>j. proj s1 j = G x j (proj s j)"
    by auto
  from Cons.IH [OF s1(2)] s1 show ?case by simp
qed

lemma set_bet_types: "bt \<in> set bet_types"
  by (cases bt) (simp_all add: bet_types_def)

lemma distinct_bet_types: "distinct bet_types"
  by (simp add: bet_types_def)

section \<open>The Martingale progression\<close>

lemma martingale_body_track:
  assumes "nonempty_balances s"
  shows "\<exists>s'. martingale_body ib r s k = Inr s' \<and> nonempty_balances s' \<and>
    (\<forall>j. bet_track s' j =
       (if j = k then martingale_track ib (bet_win r k) (bet_track s j) else bet_track s j))"
  using assms
  by (simp add: martingale_body_def Let_def nonempty_balances_def append_balance_ok
      bet_track_def martingale_track_def)

lemma martingale_row_track:
  assumes "nonempty_balances s"
  shows "\<exists>s'. for_each bet_types (martingale_body ib r) s = Inr s' \<and> nonempty_balances s' \<and>
    (\<forall>j. bet_track s' j = martingale_track ib (bet_win r j) (bet_track s j))"
  using for_each_keys [where I = nonempty_balances and body = "martingale_body ib r"
      and proj = bet_track and F = "\<lambda>k. martingale_track ib (bet_win r k)"
      and ks = bet_types and s = s]
    martingale_body_track assms
  by (simp add: set_bet_types distinct_bet_types)

lemma martingale_run_track:
  "\<exists>s. martingale_run data ib = Inr s \<and> nonempty_balances s \<and>
    (\<forall>j. bet_track s j = foldl (\<lambda>t r. martingale_track ib (bet_win r j) t) ([0], ib) data)"
proof -
  have init: "nonempty_balances (bet_vars_init ib)"
    by (simp add: nonempty_balances_def bet_vars_init_def)
  have "\<exists>s'. for_each data (\<lambda>s r. for_each bet_types (martingale_body ib r) s) (bet_vars_init ib) = Inr s'
      \<and> nonempty_balances s' \<and>
      (\<forall>j. bet_track s' j =
         foldl (\<lambda>t r. martingale_track ib (bet_win r j) t) (bet_track (bet_vars_init ib) j) data)"
    by (rule for_each_fold [where I = nonempty_balances]) (auto intro: martingale_row_track init)
  then show ?thesis
    by (simp add: martingale_run_def bet_track_def bet_vars_init_def)
qed

lemma martingale_run_snoc:
  "\<exists>s s'. martingale_run rows ib = Inr s \<and> martingale_run (rows @ [r]) ib = Inr s' \<and>
     nonempty_balances s \<and>
     (\<forall>j. bet_track s' j = martingale_track ib (bet_win r j) (bet_track s j))"
proof -
  obtain s where s: "martingale_run rows ib = Inr s" "nonempty_balances s"
    "\<forall>j. bet_track s j = foldl (\<lambda>t r. martingale_track ib (bet_win r j) t) ([0], ib) rows"
    using martingale_run_track [of rows ib] by blast
  obtain s' where s': "martingale_run (rows @ [r]) ib = Inr s'"
    "\<forall>j. bet_track s' j = foldl (\<lambda>t r. martingale_track ib (bet_win r j) t) ([0], ib) (rows @ [r])"
    using martingale_run_track [of "rows @ [r]" ib] by blast
  from s s' show ?thesis by simp
qed

text \<open>
  Claim C2. The bets of \<^verbatim>\<open>martingale_strategy\<close> start at \<open>initial_bet\<close> for every bet
  type. Let \<open>s\<close> be the loop variables after the spins \<open>rows\<close> and \<open>s'\<close> those after one
  more spin \<open>r\<close>. For every bet type: if its win column of \<open>r\<close> is 1, the balance
  appended is the previous balance plus the current bet and the bet becomes
  \<open>initial_bet\<close>; otherwise the balance appended is the previous balance minus the
  current bet and the bet becomes twice the current bet. No run raises.
\<close>

theorem martingale_bet_progression:
  "martingale_run [] initial_bet = Inr \<lparr>balances = (\<lambda>bt. [0]), bets = (\<lambda>bt. initial_bet)\<rparr> \<and>
   (\<exists>s s'. martingale_run rows initial_bet = Inr s \<and>
      martingale_run (rows @ [r]) initial_bet = Inr s' \<and>
      martingale_strategy (rows @ [r]) initial_bet = Inr (balances s') \<and>
      (\<forall>bt. balances s bt \<noteq> [] \<and>
         balances s' bt = balances s bt @
           [if bet_win r bt = 1 then last (balances s bt) + bets s bt
            else last (balances s bt) - bets s bt] \<and>
         bets s' bt = (if bet_win r bt = 1 then initial_bet else bets s bt * 2)))"
proof
  show "martingale_run [] initial_bet = Inr \<lparr>balances = (\<lambda>bt. [0]), bets = (\<lambda>bt. initial_bet)\<rparr>"
    by (simp add: martingale_run_def bet_vars_init_def)
next
  obtain s s' where run: "martingale_run rows initial_bet = Inr s"
    "martingale_run (rows @ [r]) initial_bet = Inr s'" "nonempty_balances s"
    and step: "\<forall>j. bet_track s' j = martingale_track initial_bet (bet_win r j) (bet_track s j)"
    using martingale_run_snoc [of rows initial_bet r] by blast
  have "balances s bt \<noteq> [] \<and>
         balances s' bt = balances s bt @
           [if bet_win r bt = 1 then last (balances s bt) + bets s bt
            else last (balances s bt) - bets s bt] \<and>
         bets s' bt = (if bet_win r bt = 1 then initial_bet else bets s bt * 2)" for bt
    using step [rule_format, of bt] run(3)
    by (simp add: bet_track_def martingale_track_def nonempty_balances_def split: if_splits)
  with run show "\<exists>s s'. martingale_run rows initial_bet = Inr s \<and>
      martingale_run (rows @ [r]) initial_bet = Inr s' \<and>
      martingale_strategy (rows @ [r]) initial_bet = Inr (balances s') \<and>
      (\<forall>bt. balances s bt \<noteq> [] \<and>
         balances s' bt = balances s bt @
           [if bet_win r bt = 1 then last (balances s bt) + bets s bt
            else last (balances s bt) - bets s bt] \<and>
         bets s' bt = (if bet_win r bt = 1 then initial_bet else bets s bt * 2))"
    by (simp add: martingale_strategy_def)
qed

theorem martingale_bet_progression_witness:
  "\<exists>s'. martingale_run ([all_loss] @ [all_loss]) 5 = Inr s' \<and>
     balances s' Red = [0, - 5, - 15] \<and> bets s' Red = 20"
proof -
  have ev: "\<exists>s. martingale_run [all_loss] 5 = Inr s \<and> balances s Red = [0, - 5] \<and> bets s Red = 10"
    by (simp add: martingale_run_def bet_vars_init_def bet_types_def martingale_body_def
        append_balance_def py_index_def all_loss_def)
  from martingale_bet_progression [of 5 "[all_loss]" all_loss] ev
  show ?thesis by (auto simp: all_loss_def)
qed

section \<open>The D'Alembert progression\<close>

lemma d_alembert_body_track:
  assumes "nonempty_balances s"
  shows "\<exists>s'. d_alembert_body ib r s k = Inr s' \<and> nonempty_balances s' \<and>
    (\<forall>j. bet_track s' j =
       (if j = k then d_alembert_track ib (bet_win r k) (bet_track s j) else bet_track s j))"
  using assms
  by (simp add: d_alembert_body_def Let_def nonempty_balances_def append_balance_ok
      bet_track_def d_alembert_track_def)

lemma d_alembert_row_track:
  assumes "nonempty_balances s"
  shows "\<exists>s'. for_each bet_types (d_alembert_body ib r) s = Inr s' \<and> nonempty_balances s' \<and>
    (\<forall>j. bet_track s' j = d_alembert_track ib (bet_win r j) (bet_track s j))"
  using for_each_keys [where I = nonempty_balances and body = "d_alembert_body ib r"
      and proj = bet_track and F = "\<lambda>k. d_alembert_track ib (bet_win r k)"
      and ks = bet_types and s = s]
    d_alembert_body_track assms
  by (simp add: set_bet_types distinct_bet_types)

lemma d_alembert_run_track:
  "\<exists>s. d_alembert_run data ib = Inr s \<and> nonempty_balances s \<and>
    (\<forall>j. bet_track s j = foldl (\<lambda>t r. d_alembert_track ib (bet_win r j) t) ([0], ib) data)"
proof -
  have init: "nonempty_balances (bet_vars_init ib)"
    by (simp add: nonempty_balances_def bet_vars_init_def)
  have "\<exists>s'. for_each data (\<lambda>s r. for_each bet_types (d_alembert_body ib r) s) (bet_vars_init ib) = Inr s'
      \<and> nonempty_balances s' \<and>
      (\<forall>j. bet_track s' j =
         foldl (\<lambda>t r. d_alembert_track ib (bet_win r j) t) (bet_track (bet_vars_init ib) j) data)"
    by (rule for_each_fold [where I = nonempty_balances]) (auto intro: d_alembert_row_track init)
  then show ?thesis
    by (simp add: d_alembert_run_def bet_track_def bet_vars_init_def)
qed

lemma d_alembert_track_floor:
  assumes "0 \<le> ib" and "ib \<le> snd t"
  shows "ib \<le> snd (foldl (\<lambda>t r. d_alembert_track ib (bet_win r j) t) t rows)"
  using assms(2)
proof (induction rows arbitrary: t)
  case Nil
  then show ?case by simp
next
  case (Cons r rows)
  have "ib \<le> snd (d_alembert_track ib (bet_win r j) t)"
    using assms(1) Cons.prems by (simp add: d_alembert_track_def)
  then show ?case using Cons.IH by simp
qed

text \<open>
  Claim C7, as amended. The bets of \<^verbatim>\<open>d_alembert_strategy\<close> start at \<open>initial_bet\<close>; with
  \<open>s\<close> the loop variables after the spins \<open>rows\<close> and \<open>s'\<close> those after one more spin \<open>r\<close>,
  the bet of a bet type becomes \<open>max initial_bet (bet - initial_bet)\<close> when its win
  column of \<open>r\<close> is 1 and \<open>bet + initial_bet\<close> otherwise, for every initial bet. When
  \<open>initial_bet\<close> is not negative, no bet is ever less than \<open>initial_bet\<close>.
\<close>

theorem d_alembert_bet_floor:
  "d_alembert_run [] initial_bet = Inr \<lparr>balances = (\<lambda>bt. [0]), bets = (\<lambda>bt. initial_bet)\<rparr> \<and>
   (\<exists>s s'. d_alembert_run rows initial_bet = Inr s \<and>
      d_alembert_run (rows @ [r]) initial_bet = Inr s' \<and>
      (\<forall>bt. bets s' bt =
         (if bet_win r bt = 1 then max initial_bet (bets s bt - initial_bet)
          else bets s bt + initial_bet)) \<and>
      (0 \<le> initial_bet \<longrightarrow> (\<forall>bt. initial_bet \<le> bets s bt \<and> initial_bet \<le> bets s' bt)))"
proof
  show "d_alembert_run [] initial_bet = Inr \<lparr>balances = (\<lambda>bt. [0]), bets = (\<lambda>bt. initial_bet)\<rparr>"
    by (simp add: d_alembert_run_def bet_vars_init_def)
next
  let ?step = "\<lambda>j t r. d_alembert_track initial_bet (bet_win r j) t"
  obtain s where s: "d_alembert_run rows initial_bet = Inr s"
    "\<forall>j. bet_track s j = foldl (?step j) ([0], initial_bet) rows"
    using d_alembert_run_track [of rows initial_bet] by blast
  obtain s' where s': "d_alembert_run (rows @ [r]) initial_bet = Inr s'"
    "\<forall>j. bet_track s' j = foldl (?step j) ([0], initial_bet) (rows @ [r])"
    using d_alembert_run_track [of "rows @ [r]" initial_bet] by blast
  have step: "bets s' bt =
         (if bet_win r bt = 1 then max initial_bet (bets s bt - initial_bet)
          else bets s bt + initial_bet)" for bt
  proof -
    have "bet_track s' bt = d_alembert_track initial_bet (bet_win r bt) (bet_track s bt)"
      using s(2) s'(2) by simp
    then show ?thesis
      by (simp add: bet_track_def d_alembert_track_def split: if_splits)
  qed
  have floor: "initial_bet \<le> bets s bt \<and> initial_bet \<le> bets s' bt" if "0 \<le> initial_bet" for bt
  proof -
    have e: "bet_track s bt = foldl (?step bt) ([0], initial_bet) rows"
      and e': "bet_track s' bt = foldl (?step bt) ([0], initial_bet) (rows @ [r])"
      using s(2) s'(2) by blast+
    have "initial_bet \<le> snd (bet_track s bt)"
      unfolding e by (rule d_alembert_track_floor [OF that]) simp
    moreover have "initial_bet \<le> snd (bet_track s' bt)"
      unfolding e' by (rule d_alembert_track_floor [OF that]) simp
    ultimately show ?thesis by (simp add: bet_track_def)
  qed
  from s(1) s'(1) step floor
  show "\<exists>s s'. d_alembert_run rows initial_bet = Inr s \<and>
      d_alembert_run (rows @ [r]) initial_bet = Inr s' \<and>
      (\<forall>bt. bets s' bt =
         (if bet_win r bt = 1 then max initial_bet (bets s bt - initial_bet)
          else bets s bt + initial_bet)) \<and>
      (0 \<le> initial_bet \<longrightarrow> (\<forall>bt. initial_bet \<le> bets s bt \<and> initial_bet \<le> bets s' bt))"
    by blast
qed

theorem d_alembert_bet_floor_witness:
  "(0::int) \<le> 5 \<and>
   (\<exists>s'. d_alembert_run ([all_loss, all_win] @ [all_win]) 5 = Inr s' \<and>
      bets s' Red = 5 \<and> 5 \<le> bets s' Red)"
proof -
  have ev: "\<exists>s. d_alembert_run [all_loss, all_win] 5 = Inr s \<and> bets s Red = 5"
    by (simp add: d_alembert_run_def bet_vars_init_def bet_types_def d_alembert_body_def
        append_balance_def py_index_def all_loss_def all_win_def)
  from d_alembert_bet_floor [of 5 "[all_loss, all_win]" all_win] ev
  show ?thesis by (auto simp: all_win_def)
qed

text \<open>
  With the initial bet \<open>- 5\<close>, one losing spin takes the bet on red to \<open>- 10\<close>, which is
  less than the initial bet.
\<close>

theorem d_alembert_bet_floor_counterexample:
  "py_then (d_alembert_run [all_loss] (- 5)) (\<lambda>s. Inr (bets s Red, bets s Red < - 5))
     = Inr (- 10, True)"
  by (simp add: d_alembert_run_def bet_vars_init_def bet_types_def d_alembert_body_def
      append_balance_def py_index_def all_loss_def)

section \<open>The Fibonacci progression\<close>

lemma progress_ok_step: "progress_ok p \<Longrightarrow> progress_ok (fib_progress flag p)"
  by (auto simp: progress_ok_def fib_progress_def extended_def)

lemma fibonacci_body_track:
  assumes "fib_vars_ok s"
  shows "\<exists>s'. fibonacci_body ib r s k = Inr s' \<and> fib_vars_ok s' \<and>
    (\<forall>j. fib_track_of s' j =
       (if j = k then fib_track (\<lambda>x. x) ib (bet_win r k) (fib_track_of s j) else fib_track_of s j))"
proof -
  from assms have ne: "\<forall>bt. fib_balances s bt \<noteq> []"
    and ok: "\<forall>bt. progress_ok (sequences s bt, indices s bt)"
    by (simp_all add: fib_vars_ok_def)
  from ok have k: "2 \<le> length (sequences s k)" "0 \<le> indices s k"
    "indices s k < int (length (sequences s k))"
    by (simp_all add: progress_ok_def)
  have rd: "py_index (sequences s k) (indices s k) = Inr (sequences s k ! nat (indices s k))"
    using k by (simp add: py_index_nat)
  have ext: "extend_sequence (sequences s k) (indices s k + 1)
      = Inr (extended (sequences s k) (indices s k))"
  proof -
    from k(1) have "sequences s k \<noteq> []" by auto
    with k show ?thesis
      by (simp add: extend_sequence_def extended_def py_index_last py_index_last_but_one)
  qed
  have ok': "progress_ok (fib_progress (bet_win r k) (sequences s k, indices s k))"
    using ok by (simp add: progress_ok_step)
  show ?thesis
  proof (cases "bet_win r k = 1")
    case True
    with ne ok ok' show ?thesis
      by (simp add: fibonacci_body_def Let_def rd append_balance_ok fib_vars_ok_def
          fib_track_of_def fib_track_def fib_progress_def)
  next
    case False
    with ne ok ok' show ?thesis
      by (simp add: fibonacci_body_def Let_def rd ext append_balance_ok fib_vars_ok_def
          fib_track_of_def fib_track_def fib_progress_def)
  qed
qed

lemma fibonacci_row_track:
  assumes "fib_vars_ok s"
  shows "\<exists>s'. for_each bet_types (fibonacci_body ib r) s = Inr s' \<and> fib_vars_ok s' \<and>
    (\<forall>j. fib_track_of s' j = fib_track (\<lambda>x. x) ib (bet_win r j) (fib_track_of s j))"
  using for_each_keys [where I = fib_vars_ok and body = "fibonacci_body ib r"
      and proj = fib_track_of and F = "\<lambda>k. fib_track (\<lambda>x. x) ib (bet_win r k)"
      and ks = bet_types and s = s]
    fibonacci_body_track assms
  by (simp add: set_bet_types distinct_bet_types)

lemma fibonacci_run_track:
  "\<exists>s. fibonacci_run data ib = Inr s \<and> fib_vars_ok s \<and>
    (\<forall>j. fib_track_of s j =
       foldl (\<lambda>t r. fib_track (\<lambda>x. x) ib (bet_win r j) t) ([0], [1, 1], 0) data)"
proof -
  have init: "fib_vars_ok fib_vars_init"
    by (simp add: fib_vars_ok_def fib_vars_init_def progress_ok_def)
  have "\<exists>s'. for_each data (\<lambda>s r. for_each bet_types (fibonacci_body ib r) s) fib_vars_init = Inr s'
      \<and> fib_vars_ok s' \<and>
      (\<forall>j. fib_track_of s' j =
         foldl (\<lambda>t r. fib_track (\<lambda>x. x) ib (bet_win r j) t) (fib_track_of fib_vars_init j) data)"
    by (rule for_each_fold [where I = fib_vars_ok]) (auto intro: fibonacci_row_track init)
  then show ?thesis
    by (simp add: fibonacci_run_def fib_track_of_def fib_vars_init_def)
qed

lemma fibonacci_run_snoc:
  "\<exists>s s'. fibonacci_run rows ib = Inr s \<and> fibonacci_run (rows @ [r]) ib = Inr s' \<and>
     fib_vars_ok s \<and> fib_vars_ok s' \<and>
     (\<forall>j. fib_track_of s' j = fib_track (\<lambda>x. x) ib (bet_win r j) (fib_track_of s j))"
proof -
  let ?step = "\<lambda>j t r. fib_track (\<lambda>x. x) ib (bet_win r j) t"
  obtain s where s: "fibonacci_run rows ib = Inr s" "fib_vars_ok s"
    "\<forall>j. fib_track_of s j = foldl (?step j) ([0], [1, 1], 0) rows"
    using fibonacci_run_track [of rows ib] by blast
  obtain s' where s': "fibonacci_run (rows @ [r]) ib = Inr s'" "fib_vars_ok s'"
    "\<forall>j. fib_track_of s' j = foldl (?step j) ([0], [1, 1], 0) (rows @ [r])"
    using fibonacci_run_track [of "rows @ [r]" ib] by blast
  from s s' show ?thesis by simp
qed

text \<open>
  Claim C3. \<^verbatim>\<open>fibonacci_strategy\<close> starts every bet type with the sequence \<open>[1, 1]\<close> and
  the index 0. Let \<open>s\<close> be the loop variables after the spins \<open>rows\<close> and \<open>s'\<close> those after
  one more spin \<open>r\<close>. For every bet type the wager is \<open>sequence[index] * initial_bet\<close>, read
  in bounds; on a win the balance plus the wager is appended and the index becomes
  \<open>max 0 (index - 2)\<close>, the sequence staying as it is; on a loss the balance minus the
  wager is appended, the index grows by one and, when the new index reaches the length
  of the sequence, the sum of its last two terms is appended to it. The new index is
  again inside the new sequence.
\<close>

theorem fibonacci_step:
  "fibonacci_run [] initial_bet =
     Inr \<lparr>fib_balances = (\<lambda>bt. [0]), sequences = (\<lambda>bt. [1, 1]), indices = (\<lambda>bt. 0)\<rparr> \<and>
   (\<exists>s s'. fibonacci_run rows initial_bet = Inr s \<and>
      fibonacci_run (rows @ [r]) initial_bet = Inr s' \<and>
      fibonacci_strategy (rows @ [r]) initial_bet = Inr (fib_balances s') \<and>
      (\<forall>bt. fib_balances s bt \<noteq> [] \<and> 2 \<le> length (sequences s bt) \<and>
         0 \<le> indices s bt \<and> indices s bt < int (length (sequences s bt)) \<and>
         fib_balances s' bt = fib_balances s bt @
           [if bet_win r bt = 1
            then last (fib_balances s bt) + sequences s bt ! nat (indices s bt) * initial_bet
            else last (fib_balances s bt) - sequences s bt ! nat (indices s bt) * initial_bet] \<and>
         indices s' bt =
           (if bet_win r bt = 1 then max 0 (indices s bt - 2) else indices s bt + 1) \<and>
         sequences s' bt =
           (if bet_win r bt = 1 then sequences s bt
            else if int (length (sequences s bt)) \<le> indices s bt + 1
              then sequences s bt @
                [last (sequences s bt) + sequences s bt ! (length (sequences s bt) - 2)]
              else sequences s bt) \<and>
         0 \<le> indices s' bt \<and> indices s' bt < int (length (sequences s' bt))))"
  (is "?init \<and> ?step")
proof
  show ?init
    by (simp add: fibonacci_run_def fib_vars_init_def)
next
  obtain s s' where run: "fibonacci_run rows initial_bet = Inr s"
    "fibonacci_run (rows @ [r]) initial_bet = Inr s'"
    and ok: "fib_vars_ok s" "fib_vars_ok s'"
    and step: "\<forall>j. fib_track_of s' j = fib_track (\<lambda>x. x) initial_bet (bet_win r j) (fib_track_of s j)"
    using fibonacci_run_snoc [of rows initial_bet r] by blast
  have a: "\<forall>bt. fib_balances s bt \<noteq> [] \<and> 2 \<le> length (sequences s bt) \<and>
       0 \<le> indices s bt \<and> indices s bt < int (length (sequences s bt))"
    using ok(1) by (simp add: fib_vars_ok_def progress_ok_def)
  have b: "\<forall>bt. 0 \<le> indices s' bt \<and> indices s' bt < int (length (sequences s' bt))"
    using ok(2) by (simp add: fib_vars_ok_def progress_ok_def)
  have c: "\<forall>bt. fib_balances s' bt = fib_balances s bt @
         [if bet_win r bt = 1
          then last (fib_balances s bt) + sequences s bt ! nat (indices s bt) * initial_bet
          else last (fib_balances s bt) - sequences s bt ! nat (indices s bt) * initial_bet]"
    and d: "\<forall>bt. (sequences s' bt, indices s' bt)
       = fib_progress (bet_win r bt) (sequences s bt, indices s bt)"
    using step by (simp_all add: fib_track_of_def fib_track_def Let_def)
  have e: "\<forall>bt. indices s' bt =
         (if bet_win r bt = 1 then max 0 (indices s bt - 2) else indices s bt + 1) \<and>
       sequences s' bt =
         (if bet_win r bt = 1 then sequences s bt
          else if int (length (sequences s bt)) \<le> indices s bt + 1
            then sequences s bt @
              [last (sequences s bt) + sequences s bt ! (length (sequences s bt) - 2)]
            else sequences s bt)"
  proof
    fix bt
    from d have "(sequences s' bt, indices s' bt)
       = fib_progress (bet_win r bt) (sequences s bt, indices s bt)" by blast
    then show "indices s' bt =
         (if bet_win r bt = 1 then max 0 (indices s bt - 2) else indices s bt + 1) \<and>
       sequences s' bt =
         (if bet_win r bt = 1 then sequences s bt
          else if int (length (sequences s bt)) \<le> indices s bt + 1
            then sequences s bt @
              [last (sequences s bt) + sequences s bt ! (length (sequences s bt) - 2)]
            else sequences s bt)"
      by (simp add: fib_progress_def extended_def split: if_splits)
  qed
  show ?step
    apply (rule exI [of _ s], rule exI [of _ s'])
    using run a b c e by (simp add: fibonacci_strategy_def)
qed

theorem fibonacci_step_witness:
  "\<exists>s'. fibonacci_run ([all_loss, all_loss] @ [all_loss]) 1 = Inr s' \<and>
     fib_balances s' Red = [0, - 1, - 2, - 4] \<and> sequences s' Red = [1, 1, 2, 3] \<and>
     indices s' Red = 3"
proof -
  have ev: "\<exists>s. fibonacci_run [all_loss, all_loss] 1 = Inr s \<and>
      fib_balances s Red = [0, - 1, - 2] \<and> sequences s Red = [1, 1, 2] \<and> indices s Red = 2"
    by (simp add: fibonacci_run_def fib_vars_init_def bet_types_def fibonacci_body_def
        extend_sequence_def append_balance_def py_index_def all_loss_def)
  from fibonacci_step [of 1 "[all_loss, all_loss]" all_loss] ev
  show ?thesis by (auto simp: all_loss_def)
qed

section \<open>The sequence kept by the Fibonacci loops\<close>

lemma snd_fib_track_fold:
  "snd (foldl (\<lambda>t r. fib_track clamp ib (f r) t) t rows)
     = foldl (\<lambda>p r. fib_progress (f r) p) (snd t) rows"
  by (induction rows arbitrary: t) (simp_all add: fib_track_def Let_def)

lemma progress_ok_fold:
  "progress_ok p \<Longrightarrow> progress_ok (foldl (\<lambda>p r. fib_progress (f r) p) p rows)"
  by (induction rows arbitrary: p) (simp_all add: progress_ok_step)

lemma classic_fib_length:
  assumes "2 \<le> n"
  shows "classic_fib n = classic_fib (n - 1) + classic_fib (n - 2)"
proof -
  from assms obtain m where "n = Suc (Suc m)"
    by (metis One_nat_def Suc_1 Suc_le_D Suc_le_mono)
  then show ?thesis by simp
qed

lemma fib_prefix_extended:
  assumes "fib_prefix sq" and "2 \<le> length sq"
  shows "fib_prefix (extended sq i)"
proof (cases "int (length sq) \<le> i + 1")
  case False
  with assms show ?thesis by (simp add: extended_def)
next
  case True
  let ?n = "length sq"
  from assms have sq: "sq = map classic_fib [0..<?n]"
    by (simp add: fib_prefix_def)
  from assms(2) have ne: "sq \<noteq> []" by auto
  have "last sq = sq ! (?n - 1)"
    using ne by (simp add: last_conv_nth)
  also have "\<dots> = classic_fib (?n - 1)"
    using assms(2) by (subst sq) simp
  finally have l1: "last sq = classic_fib (?n - 1)" .
  have l2: "sq ! (?n - 2) = classic_fib (?n - 2)"
    using assms(2) by (subst sq) simp
  have "sq @ [last sq + sq ! (?n - 2)] = map classic_fib [0..<Suc ?n]"
    using sq l1 l2 classic_fib_length [OF assms(2)] by simp
  with True show ?thesis by (simp add: extended_def fib_prefix_def)
qed

lemma fib_prefix_step:
  "fib_prefix (fst p) \<Longrightarrow> progress_ok p \<Longrightarrow> fib_prefix (fst (fib_progress flag p))"
  by (simp add: fib_progress_def fib_prefix_extended progress_ok_def)

lemma fib_prefix_fold:
  "fib_prefix (fst p) \<Longrightarrow> progress_ok p \<Longrightarrow>
   fib_prefix (fst (foldl (\<lambda>p r. fib_progress (f r) p) p rows))"
  by (induction rows arbitrary: p) (simp_all add: fib_prefix_step progress_ok_step)

lemma prefix_fib_progress: "prefix (fst p) (fst (fib_progress flag p))"
  by (simp add: fib_progress_def extended_def)

lemma prefix_fib_fold: "prefix (fst p) (fst (foldl (\<lambda>p r. fib_progress (f r) p) p rows))"
proof (induction rows arbitrary: p)
  case Nil
  show ?case by simp
next
  case (Cons r rows)
  have "prefix (fst p) (fst (fib_progress (f r) p))"
    by (rule prefix_fib_progress)
  also have "prefix \<dots> (fst (foldl (\<lambda>p r. fib_progress (f r) p) (fib_progress (f r) p) rows))"
    by (rule Cons.IH)
  finally show ?case by simp
qed

lemma classic_fib_pos: "0 < classic_fib n"
  by (induction n rule: classic_fib.induct) simp_all

lemma classic_fib_mono: "i \<le> j \<Longrightarrow> classic_fib i \<le> classic_fib j"
proof (rule lift_Suc_mono_le)
  fix n show "classic_fib n \<le> classic_fib (Suc n)"
    using classic_fib_pos [of "n - 1"] by (cases n) simp_all
qed

lemma fib_prefix_sorted: "fib_prefix sq \<Longrightarrow> sorted sq"
proof -
  assume "fib_prefix sq"
  then have sq: "sq = map classic_fib [0..<length sq]"
    by (simp add: fib_prefix_def)
  have "sorted (map classic_fib [0..<length sq])"
    by (simp add: sorted_iff_nth_mono classic_fib_mono)
  with sq show ?thesis by simp
qed

lemma fib_prefix_recurrence:
  assumes "fib_prefix sq" and "2 \<le> i" and "i < length sq"
  shows "sq ! i = sq ! (i - 1) + sq ! (i - 2)"
proof -
  from assms(1) have sq: "sq = map classic_fib [0..<length sq]"
    by (simp add: fib_prefix_def)
  have "sq ! i = classic_fib i" "sq ! (i - 1) = classic_fib (i - 1)"
    "sq ! (i - 2) = classic_fib (i - 2)"
    using assms(3) by (subst sq, simp)+
  then show ?thesis using classic_fib_length [OF assms(2)] by simp
qed

lemma fibonacci_run_progress:
  "\<exists>s. fibonacci_run data ib = Inr s \<and> fib_vars_ok s \<and>
     (\<forall>j. (sequences s j, indices s j)
        = foldl (\<lambda>p r. fib_progress (bet_win r j) p) ([1, 1], 0) data)"
proof -
  obtain s where s: "fibonacci_run data ib = Inr s" "fib_vars_ok s"
    "\<forall>j. fib_track_of s j = foldl (\<lambda>t r. fib_track (\<lambda>x. x) ib (bet_win r j) t) ([0], [1, 1], 0) data"
    using fibonacci_run_track [of data ib] by blast
  have "(sequences s j, indices s j)
        = foldl (\<lambda>p r. fib_progress (bet_win r j) p) ([1, 1], 0) data" for j
  proof -
    have "(sequences s j, indices s j) = snd (fib_track_of s j)"
      by (simp add: fib_track_of_def)
    also have "\<dots> = snd (foldl (\<lambda>t r. fib_track (\<lambda>x. x) ib (bet_win r j) t) ([0], [1, 1], 0) data)"
      using s(3) by simp
    also have "\<dots> = foldl (\<lambda>p r. fib_progress (bet_win r j) p) ([1, 1], 0) data"
      by (simp add: snd_fib_track_fold)
    finally show ?thesis .
  qed
  with s show ?thesis by blast
qed

lemma fib_prefix_seed: "fib_prefix [1, 1]"
  by (simp add: fib_prefix_def upt_rec)

text \<open>
  Claim C4. Let \<open>s\<close> be the loop variables of \<^verbatim>\<open>fibonacci_strategy\<close> after the spins \<open>rows\<close>
  and \<open>s'\<close> those after the further spins \<open>later\<close>. For every bet type the sequence in \<open>s\<close>
  is the classic Fibonacci sequence seeded \<open>[1, 1]\<close>, read up to its length: every term
  from the third on is the sum of the two before it. It is non-decreasing, and it is a
  prefix of the sequence in \<open>s'\<close>: the run only ever extends it.
\<close>

theorem fibonacci_sequence_invariant:
  "\<exists>s s'. fibonacci_run rows initial_bet = Inr s \<and>
     fibonacci_run (rows @ later) initial_bet = Inr s' \<and>
     (\<forall>bt. 2 \<le> length (sequences s bt) \<and>
        sequences s bt = map classic_fib [0..<length (sequences s bt)] \<and>
        (\<forall>i. 2 \<le> i \<and> i < length (sequences s bt) \<longrightarrow>
           sequences s bt ! i = sequences s bt ! (i - 1) + sequences s bt ! (i - 2)) \<and>
        sorted (sequences s bt) \<and>
        prefix (sequences s bt) (sequences s' bt) \<and>
        length (sequences s bt) \<le> length (sequences s' bt))"
proof -
  let ?run = "\<lambda>j p rs. foldl (\<lambda>p r. fib_progress (bet_win r j) p) p rs"
  obtain s where s: "fibonacci_run rows initial_bet = Inr s"
    "\<forall>j. (sequences s j, indices s j) = ?run j ([1, 1], 0) rows"
    using fibonacci_run_progress [of rows initial_bet] by blast
  obtain s' where s': "fibonacci_run (rows @ later) initial_bet = Inr s'"
    "\<forall>j. (sequences s' j, indices s' j) = ?run j ([1, 1], 0) (rows @ later)"
    using fibonacci_run_progress [of "rows @ later" initial_bet] by blast
  have seed: "progress_ok ([1, 1], 0)" "fib_prefix (fst ([1, 1], 0 :: int))"
    by (simp_all add: progress_ok_def fib_prefix_seed)
  have all: "2 \<le> length (sequences s bt) \<and>
        sequences s bt = map classic_fib [0..<length (sequences s bt)] \<and>
        (\<forall>i. 2 \<le> i \<and> i < length (sequences s bt) \<longrightarrow>
           sequences s bt ! i = sequences s bt ! (i - 1) + sequences s bt ! (i - 2)) \<and>
        sorted (sequences s bt) \<and>
        prefix (sequences s bt) (sequences s' bt) \<and>
        length (sequences s bt) \<le> length (sequences s' bt)" for bt
  proof -
    have e: "?run bt ([1, 1], 0) rows = (sequences s bt, indices s bt)"
      and e': "?run bt (sequences s bt, indices s bt) later = (sequences s' bt, indices s' bt)"
      using s(2) s'(2) by simp_all
    have ok: "progress_ok (sequences s bt, indices s bt)"
      using progress_ok_fold [OF seed(1), of "\<lambda>r. bet_win r bt" rows] e by simp
    have fp: "fib_prefix (sequences s bt)"
      using fib_prefix_fold [OF seed(2) seed(1), of "\<lambda>r. bet_win r bt" rows] e by simp
    have pre: "prefix (sequences s bt) (sequences s' bt)"
      using prefix_fib_fold [of "(sequences s bt, indices s bt)" "\<lambda>r. bet_win r bt" later] e'
      by simp
    from ok have "2 \<le> length (sequences s bt)"
      by (simp add: progress_ok_def)
    moreover from fp have "sequences s bt = map classic_fib [0..<length (sequences s bt)]"
      by (simp add: fib_prefix_def)
    moreover have "\<forall>i. 2 \<le> i \<and> i < length (sequences s bt) \<longrightarrow>
           sequences s bt ! i = sequences s bt ! (i - 1) + sequences s bt ! (i - 2)"
      using fib_prefix_recurrence [OF fp] by blast
    moreover have "sorted (sequences s bt)"
      using fp by (rule fib_prefix_sorted)
    moreover have "length (sequences s bt) \<le> length (sequences s' bt)"
      using pre by (rule prefix_length_le)
    ultimately show ?thesis using pre by blast
  qed
  show ?thesis
    apply (rule exI [of _ s], rule exI [of _ s'])
    using s(1) s'(1) all by blast
qed

theorem fibonacci_sequence_invariant_witness:
  "\<exists>s s'. fibonacci_run [all_loss, all_loss, all_loss] 1 = Inr s \<and>
     fibonacci_run ([all_loss, all_loss, all_loss] @ [all_win, all_loss]) 1 = Inr s' \<and>
     sequences s Red = [1, 1, 2, 3] \<and> sequences s' Red = [1, 1, 2, 3] \<and>
     (2::nat) \<le> 3 \<and> 3 < length (sequences s Red) \<and>
     sequences s Red ! 3 = sequences s Red ! (3 - 1) + sequences s Red ! (3 - 2) \<and>
     sorted (sequences s Red) \<and> prefix (sequences s Red) (sequences s' Red)"
proof -
  have ev: "\<exists>s. fibonacci_run [all_loss, all_loss, all_loss] 1 = Inr s \<and>
      sequences s Red = [1, 1, 2, 3]"
    by (simp add: fibonacci_run_def fib_vars_init_def bet_types_def fibonacci_body_def
        extend_sequence_def append_balance_def py_index_def all_loss_def)
  have ev': "\<exists>s. fibonacci_run ([all_loss, all_loss, all_loss] @ [all_win, all_loss]) 1 = Inr s \<and>
      sequences s Red = [1, 1, 2, 3]"
    by (simp add: fibonacci_run_def fib_vars_init_def bet_types_def fibonacci_body_def
        extend_sequence_def append_balance_def py_index_def all_loss_def all_win_def)
  from fibonacci_sequence_invariant [of "[all_loss, all_loss, all_loss]" 1 "[all_win, all_loss]"]
  obtain s s' where run: "fibonacci_run [all_loss, all_loss, all_loss] 1 = Inr s"
    "fibonacci_run ([all_loss, all_loss, all_loss] @ [all_win, all_loss]) 1 = Inr s'"
    and inv: "\<forall>i. 2 \<le> i \<and> i < length (sequences s Red) \<longrightarrow>
           sequences s Red ! i = sequences s Red ! (i - 1) + sequences s Red ! (i - 2)"
      "sorted (sequences s Red)" "prefix (sequences s Red) (sequences s' Red)"
    by blast
  from ev run(1) have sq: "sequences s Red = [1, 1, 2, 3]" by auto
  from ev' run(2) have sq': "sequences s' Red = [1, 1, 2, 3]" by auto
  have "sequences s Red ! 3 = sequences s Red ! (3 - 1) + sequences s Red ! (3 - 2)"
    using inv(1) [rule_format, of 3] sq by simp
  with run sq sq' inv(2,3) show ?thesis
    by (intro exI [of _ s] exI [of _ s']) simp
qed

section \<open>The \<^verbatim>\<open>results\<close> dictionary\<close>

lemma results_init_lookup:
  "results_init table_limits k = (if k \<in> set table_limits then Some (\<lambda>bt. [0]) else None)"
proof -
  have "foldl (\<lambda>d limit. d(limit \<mapsto> (\<lambda>bt. [0::int]))) m table_limits k
      = (if k \<in> set table_limits then Some (\<lambda>bt. [0]) else m k)" for m :: results
    by (induction table_limits arbitrary: m) auto
  then show ?thesis by (simp add: results_init_def)
qed

lemma results_init_ready: "k \<in> set table_limits \<Longrightarrow> results_ready (results_init table_limits) k"
  by (simp add: results_ready_def balances_at_def results_init_lookup)

lemma append_result_ok:
  assumes "results_ready res k"
  shows "\<exists>res'. append_result res k bt delta = Inr res' \<and> results_ready res' k \<and>
    (\<forall>j. j = k \<or> res' j = res j) \<and>
    (\<forall>b. balances_at res' k b =
       (if b = bt then balances_at res k bt @ [last (balances_at res k bt) + delta]
        else balances_at res k b))"
proof -
  from assms obtain d where d: "res k = Some d" "\<forall>b. d b \<noteq> []"
    by (auto simp: results_ready_def balances_at_def)
  then show ?thesis
    by (simp add: append_result_def py_lookup_def append_balance_ok results_ready_def
        balances_at_def)
qed

text \<open>
  Every track function of this development appends one balance per spin, so a track
  after \<open>n\<close> spins is the starting list followed by \<open>n\<close> balances.
\<close>

lemma track_appends:
  assumes "\<And>x t. \<exists>v. fst (step x t) = fst t @ [v]"
  shows "\<exists>ys. fst (foldl (\<lambda>t x. step x t) t xs) = fst t @ ys \<and> length ys = length xs"
proof (induction xs arbitrary: t)
  case Nil
  show ?case by simp
next
  case (Cons x xs)
  from assms [of x t] obtain v where v: "fst (step x t) = fst t @ [v]" by blast
  from Cons.IH [of "step x t"] obtain ys
    where "fst (foldl (\<lambda>t x. step x t) (step x t) xs) = fst (step x t) @ ys" "length ys = length xs"
    by blast
  with v have "fst (foldl (\<lambda>t x. step x t) t (x # xs)) = fst t @ (v # ys) \<and>
      length (v # ys) = length (x # xs)"
    by simp
  then show ?case by blast
qed

lemma track_shape:
  assumes "\<And>x t. \<exists>v. fst (step x t) = fst t @ [v]"
  shows "length (fst (foldl (\<lambda>t x. step x t) ([0::int], c) xs)) = length xs + 1 \<and>
    fst (foldl (\<lambda>t x. step x t) ([0], c) xs) ! 0 = 0"
proof -
  from track_appends [of step "([0], c)" xs, OF assms] obtain ys
    where "fst (foldl (\<lambda>t x. step x t) ([0], c) xs) = [0] @ ys" "length ys = length xs"
    by auto
  then show ?thesis by simp
qed

lemma limit_trajectory_ready:
  "results_ready res L \<Longrightarrow> limit_trajectory (Inr res) L bt = Inr (balances_at res L bt)"
  by (auto simp: limit_trajectory_def py_lookup_def results_ready_def balances_at_def)

lemma balances_at_frame: "res' k = res k \<Longrightarrow> balances_at res' k = balances_at res k"
  by (rule ext) (simp add: balances_at_def)

lemma ready_frame:
  assumes "\<forall>k \<in> S. results_ready res k"
    and "results_ready res' L" and "\<forall>k. k = L \<or> res' k = res k"
  shows "\<forall>k \<in> S. results_ready res' k"
proof
  fix k
  assume k: "k \<in> S"
  show "results_ready res' k"
  proof (cases "k = L")
    case True
    with assms(2) show ?thesis by simp
  next
    case False
    with assms(3) have "res' k = res k" by blast
    with assms(1) k show ?thesis by (simp add: results_ready_def balances_at_def)
  qed
qed

lemma py_then_assoc: "py_then (py_then m f) g = py_then m (\<lambda>x. py_then (f x) g)"
  by (cases m) simp_all

text \<open>
  The passes of \<^verbatim>\<open>for table_limit in table_limits\<close>. A pass for the limit \<open>k\<close> appends \<open>n\<close>
  balances to each list stored under \<open>k\<close> and leaves the other entries of \<^verbatim>\<open>results\<close> as
  they are; so the passes for the limits \<open>xs\<close> append \<open>n\<close> balances under \<open>k\<close> once for each
  occurrence of \<open>k\<close> in \<open>xs\<close>.
\<close>

lemma passes_count:
  fixes pass :: "results \<Rightarrow> int \<Rightarrow> py_error + results"
  assumes step: "\<And>res k. results_ready res k \<Longrightarrow>
      \<exists>res'. pass res k = Inr res' \<and> results_ready res' k \<and> (\<forall>j. j = k \<or> res' j = res j) \<and>
        (\<forall>b. \<exists>ys. balances_at res' k b = balances_at res k b @ ys \<and> length ys = n)"
    and sub: "set xs \<subseteq> S"
    and rdy: "\<forall>k \<in> S. results_ready res k"
  shows "\<exists>res'. for_each xs pass res = Inr res' \<and> (\<forall>k \<in> S. results_ready res' k) \<and>
    (\<forall>k b. \<exists>ys. balances_at res' k b = balances_at res k b @ ys \<and>
       length ys = n * count_list xs k)"
  using sub rdy
proof (induction xs arbitrary: res)
  case Nil
  then show ?case by simp
next
  case (Cons x xs)
  from Cons.prems have x: "results_ready res x" by simp
  from step [OF x] obtain res1
    where res1: "pass res x = Inr res1" "results_ready res1 x" "\<forall>j. j = x \<or> res1 j = res j"
      "\<forall>b. \<exists>ys. balances_at res1 x b = balances_at res x b @ ys \<and> length ys = n"
    by blast
  have rdy1: "\<forall>k \<in> S. results_ready res1 k"
    using Cons.prems(2) res1(2,3) by (rule ready_frame)
  from Cons.prems(1) have "set xs \<subseteq> S" by simp
  from Cons.IH [OF this rdy1] obtain res2
    where res2: "for_each xs pass res1 = Inr res2" "\<forall>k \<in> S. results_ready res2 k"
      "\<forall>k b. \<exists>ys. balances_at res2 k b = balances_at res1 k b @ ys \<and>
         length ys = n * count_list xs k"
    by blast
  have "\<exists>ys. balances_at res2 k b = balances_at res k b @ ys \<and>
      length ys = n * count_list (x # xs) k" for k b
  proof -
    from res2(3) obtain ys2 where ys2: "balances_at res2 k b = balances_at res1 k b @ ys2"
      "length ys2 = n * count_list xs k"
      by blast
    show ?thesis
    proof (cases "k = x")
      case True
      from res1(4) obtain ys1 where ys1: "balances_at res1 x b = balances_at res x b @ ys1"
        "length ys1 = n"
        by blast
      from True ys1 ys2 have "balances_at res2 k b = balances_at res k b @ (ys1 @ ys2) \<and>
          length (ys1 @ ys2) = n * count_list (x # xs) k"
        by simp
      then show ?thesis by blast
    next
      case False
      with res1(3) have "res1 k = res k" by blast
      then have "balances_at res1 k = balances_at res k" by (rule balances_at_frame)
      with False ys2 have "balances_at res2 k b = balances_at res k b @ ys2 \<and>
          length ys2 = n * count_list (x # xs) k"
        by simp
      then show ?thesis by blast
    qed
  qed
  with res1(1) res2(1,2) show ?case by simp
qed

text \<open>
  A function of the shape of the two variants: passes over \<open>before @ L # after\<close>, where
  \<open>L\<close> is listed once. Its result holds under \<open>L\<close> what the one pass for \<open>L\<close> stores there,
  \<open>track b\<close> for the bet type \<open>b\<close>, when that pass rewrites the lists under \<open>L\<close> by a
  function of their contents.
\<close>

lemma passes_once:
  fixes pass :: "results \<Rightarrow> int \<Rightarrow> py_error + results"
  assumes step: "\<And>res k. results_ready res k \<Longrightarrow>
      \<exists>res'. pass res k = Inr res' \<and> results_ready res' k \<and> (\<forall>j. j = k \<or> res' j = res j) \<and>
        (\<forall>b. \<exists>ys. balances_at res' k b = balances_at res k b @ ys \<and> length ys = n)"
    and exact: "\<And>res. results_ready res L \<Longrightarrow> (\<forall>b. balances_at res L b = [0]) \<Longrightarrow>
      \<exists>res'. pass res L = Inr res' \<and> (\<forall>b. balances_at res' L b = track b)"
    and once: "L \<notin> set before" "L \<notin> set after"
  shows "\<exists>res'. for_each (before @ L # after) pass (results_init (before @ L # after)) = Inr res' \<and>
    results_ready res' L \<and> (\<forall>b. balances_at res' L b = track b)"
proof -
  let ?tls = "before @ L # after"
  have rdy0: "\<forall>k \<in> set ?tls. results_ready (results_init ?tls) k"
    by (simp add: results_init_ready)
  have "set before \<subseteq> set ?tls" by auto
  from passes_count [of pass n, OF step this rdy0] obtain res1
    where res1: "for_each before pass (results_init ?tls) = Inr res1"
      "\<forall>k \<in> set ?tls. results_ready res1 k"
      "\<forall>k b. \<exists>ys. balances_at res1 k b = balances_at (results_init ?tls) k b @ ys \<and>
         length ys = n * count_list before k"
    by blast
  have zero: "\<forall>b. balances_at res1 L b = [0]"
  proof
    fix b
    from res1(3) obtain ys where "balances_at res1 L b = balances_at (results_init ?tls) L b @ ys"
      "length ys = n * count_list before L"
      by blast
    with once(1) show "balances_at res1 L b = [0]"
      by (simp add: balances_at_def results_init_lookup)
  qed
  from res1(2) have rdyL: "results_ready res1 L" by simp
  from exact [OF rdyL zero] obtain res2
    where res2: "pass res1 L = Inr res2" "\<forall>b. balances_at res2 L b = track b"
    by blast
  from step [OF rdyL] res2(1) have fr: "results_ready res2 L" "\<forall>j. j = L \<or> res2 j = res1 j"
    by auto
  have rdy2: "\<forall>k \<in> set ?tls. results_ready res2 k"
    using res1(2) fr by (rule ready_frame)
  have "set after \<subseteq> set ?tls" by auto
  from passes_count [of pass n, OF step this rdy2] obtain res3
    where res3: "for_each after pass res2 = Inr res3"
      "\<forall>k \<in> set ?tls. results_ready res3 k"
      "\<forall>k b. \<exists>ys. balances_at res3 k b = balances_at res2 k b @ ys \<and>
         length ys = n * count_list after k"
    by blast
  have same: "\<forall>b. balances_at res3 L b = track b"
  proof
    fix b
    from res3(3) obtain ys where "balances_at res3 L b = balances_at res2 L b @ ys"
      "length ys = n * count_list after L"
      by blast
    with once(2) res2(2) show "balances_at res3 L b = track b" by simp
  qed
  have "for_each ?tls pass (results_init ?tls) = Inr res3"
    using res1(1) res2(1) res3(1) by (simp add: for_each_append)
  with res3(2) same show ?thesis by simp
qed

section \<open>The Martingale progression under a table limit\<close>

lemma martingale_limit_body_track:
  assumes "limit_vars_ok L res0 s"
  shows "\<exists>s'. martingale_limit_body ib L r s k = Inr s' \<and> limit_vars_ok L res0 s' \<and>
    (\<forall>j. limit_track_of L s' j =
       (if j = k then martingale_limit_track ib L (bet_win r k) (limit_track_of L s j)
        else limit_track_of L s j))"
proof -
  from assms have rdy: "results_ready (results s) L"
    and frame: "\<forall>j. j = L \<or> results s j = res0 j"
    by (simp_all add: limit_vars_ok_def)
  let ?delta = "if bet_win r k = 1 then min (limit_bets s k) L else - min (limit_bets s k) L"
  from append_result_ok [OF rdy, of k ?delta] obtain res'
    where res': "append_result (results s) L k ?delta = Inr res'" "results_ready res' L"
      "\<forall>j. j = L \<or> res' j = results s j"
      "\<forall>b. balances_at res' L b =
         (if b = k then balances_at (results s) L k @ [last (balances_at (results s) L k) + ?delta]
          else balances_at (results s) L b)"
    by blast
  have ok': "\<forall>j. j = L \<or> res' j = res0 j"
    using frame res'(3) by metis
  show ?thesis
  proof (cases "bet_win r k = 1")
    case True
    with res' ok' show ?thesis
      by (simp add: martingale_limit_body_def Let_def limit_vars_ok_def limit_track_of_def
          martingale_limit_track_def)
  next
    case False
    with res' ok' show ?thesis
      by (simp add: martingale_limit_body_def Let_def limit_vars_ok_def limit_track_of_def
          martingale_limit_track_def)
  qed
qed

lemma martingale_limit_row_track:
  assumes "limit_vars_ok L res0 s"
  shows "\<exists>s'. for_each bet_types (martingale_limit_body ib L r) s = Inr s' \<and>
    limit_vars_ok L res0 s' \<and>
    (\<forall>j. limit_track_of L s' j = martingale_limit_track ib L (bet_win r j) (limit_track_of L s j))"
  using for_each_keys [where I = "limit_vars_ok L res0" and body = "martingale_limit_body ib L r"
      and proj = "limit_track_of L" and F = "\<lambda>k. martingale_limit_track ib L (bet_win r k)"
      and ks = bet_types and s = s]
    martingale_limit_body_track assms
  by (simp add: set_bet_types distinct_bet_types)

lemma martingale_limit_run_track:
  assumes "results_ready res L"
  shows "\<exists>s. martingale_limit_run data ib L res = Inr s \<and> limit_vars_ok L res s \<and>
    (\<forall>j. limit_track_of L s j =
       foldl (\<lambda>t r. martingale_limit_track ib L (bet_win r j) t) (balances_at res L j, ib) data)"
proof -
  let ?s0 = "\<lparr>results = res, limit_bets = (\<lambda>bt. ib)\<rparr>"
  have init: "limit_vars_ok L res ?s0"
    using assms by (simp add: limit_vars_ok_def)
  have "\<exists>s'. for_each data (\<lambda>s r. for_each bet_types (martingale_limit_body ib L r) s) ?s0 = Inr s'
      \<and> limit_vars_ok L res s' \<and>
      (\<forall>j. limit_track_of L s' j =
         foldl (\<lambda>t r. martingale_limit_track ib L (bet_win r j) t) (limit_track_of L ?s0 j) data)"
    by (rule for_each_fold [where I = "limit_vars_ok L res"])
      (auto intro: martingale_limit_row_track init)
  then show ?thesis
    by (simp add: martingale_limit_run_def limit_track_of_def)
qed

lemma martingale_limit_iteration_track:
  assumes "results_ready res L"
  shows "\<exists>res'. martingale_limit_iteration data ib res L = Inr res' \<and> results_ready res' L \<and>
    (\<forall>k. k = L \<or> res' k = res k) \<and>
    (\<forall>j. balances_at res' L j =
       fst (foldl (\<lambda>t r. martingale_limit_track ib L (bet_win r j) t) (balances_at res L j, ib) data))"
proof -
  from martingale_limit_run_track [OF assms, of data ib] obtain s
    where s: "martingale_limit_run data ib L res = Inr s" "limit_vars_ok L res s"
      "\<forall>j. limit_track_of L s j =
        foldl (\<lambda>t r. martingale_limit_track ib L (bet_win r j) t) (balances_at res L j, ib) data"
    by blast
  have "balances_at (results s) L j =
       fst (foldl (\<lambda>t r. martingale_limit_track ib L (bet_win r j) t) (balances_at res L j, ib) data)"
    for j
    using s(3) [rule_format, of j, symmetric] by (simp add: limit_track_of_def)
  with s(1,2) show ?thesis
    by (simp add: martingale_limit_iteration_def limit_vars_ok_def)
qed

lemma martingale_flat_track:
  assumes "0 \<le> ib" and "snd t = ib"
  shows "snd (foldl (\<lambda>t r. martingale_limit_track ib ib (f r) t) t rows) = ib"
  using assms(2)
proof (induction rows arbitrary: t)
  case Nil
  then show ?case by simp
next
  case (Cons r rows)
  have "snd (martingale_limit_track ib ib (f r) t) = ib"
    using assms(1) Cons.prems by (simp add: martingale_limit_track_def)
  then show ?case using Cons.IH by simp
qed

lemma martingale_iteration_appends:
  assumes "results_ready res k"
  shows "\<exists>res'. martingale_limit_iteration data ib res k = Inr res' \<and> results_ready res' k \<and>
    (\<forall>j. j = k \<or> res' j = res j) \<and>
    (\<forall>b. \<exists>ys. balances_at res' k b = balances_at res k b @ ys \<and> length ys = length data)"
proof -
  from martingale_limit_iteration_track [OF assms, of data ib] obtain res'
    where res': "martingale_limit_iteration data ib res k = Inr res'" "results_ready res' k"
      "\<forall>j. j = k \<or> res' j = res j"
      "\<forall>j. balances_at res' k j =
         fst (foldl (\<lambda>t r. martingale_limit_track ib k (bet_win r j) t) (balances_at res k j, ib) data)"
    by blast
  have "\<exists>ys. balances_at res' k b = balances_at res k b @ ys \<and> length ys = length data" for b
  proof -
    have "\<exists>ys. fst (foldl (\<lambda>t r. martingale_limit_track ib k (bet_win r b) t)
          (balances_at res k b, ib) data) = fst (balances_at res k b, ib) @ ys \<and>
        length ys = length data"
      by (rule track_appends) (simp add: martingale_limit_track_def)
    with res'(4) show ?thesis by simp
  qed
  with res'(1,2,3) show ?thesis by blast
qed

lemma martingale_iteration_exact:
  assumes "results_ready res L" and "\<forall>b. balances_at res L b = [0]"
  shows "\<exists>res'. martingale_limit_iteration data ib res L = Inr res' \<and>
    (\<forall>b. balances_at res' L b =
       fst (foldl (\<lambda>t r. martingale_limit_track ib L (bet_win r b) t) ([0], ib) data))"
  using martingale_limit_iteration_track [OF assms(1), of data ib] assms(2) by auto

text \<open>
  What \<^verbatim>\<open>martingale_strategy_with_table_limits\<close> returns under a limit that is listed
  once: the trajectory of the one pass for that limit, started from \<open>[0]\<close>.
\<close>

lemma martingale_limit_once:
  assumes "L \<notin> set before" and "L \<notin> set after"
  shows "\<exists>res'. martingale_strategy_with_table_limits data ib (before @ L # after) = Inr res' \<and>
    results_ready res' L \<and>
    (\<forall>b. balances_at res' L b =
       fst (foldl (\<lambda>t r. martingale_limit_track ib L (bet_win r b) t) ([0], ib) data))"
  unfolding martingale_strategy_with_table_limits_def
  by (rule passes_once [where n = "length data"
        and track = "\<lambda>b. fst (foldl (\<lambda>t r. martingale_limit_track ib L (bet_win r b) t) ([0], ib) data)"])
    (rule martingale_iteration_appends, assumption, rule martingale_iteration_exact,
      assumption, assumption, rule assms(1), rule assms(2))

text \<open>
  Claim C5, as amended. Take the call of \<^verbatim>\<open>martingale_strategy_with_table_limits\<close> on the
  spins \<open>rows @ r # rest\<close> and the limits \<open>before @ L # after\<close>. Let \<open>res\<close> be \<^verbatim>\<open>results\<close> when
  the pass for this \<open>L\<close> begins, \<open>s\<close> the variables of the pass after the spins \<open>rows\<close> and
  \<open>s'\<close> those after the spin \<open>r\<close>; the call returns what the rest of this pass and the
  passes for \<open>after\<close> make of \<open>s'\<close>. For every bet type the wager of the spin \<open>r\<close> is
  \<open>min bet L\<close>, which is at most \<open>L\<close>: the balance appended under \<open>L\<close> is the previous one
  plus the wager on a win and minus the wager on a loss. After a win the bet is
  \<open>initial_bet\<close>, after a loss \<open>min (bet * 2) L\<close>. When \<open>L\<close> equals \<open>initial_bet\<close> and
  \<open>initial_bet\<close> is not negative, the wager is \<open>initial_bet\<close>. When \<open>L\<close> is listed once, the
  lists under \<open>L\<close> in \<open>s\<close> and \<open>s'\<close> are the trajectories the function returns for \<open>L\<close> on
  the spins \<open>rows\<close> and on the spins \<open>rows @ [r]\<close>.
\<close>

theorem martingale_table_limit_wager:
  "\<exists>res s s' d d'.
     for_each before (martingale_limit_iteration (rows @ r # rest) initial_bet)
       (results_init (before @ L # after)) = Inr res \<and>
     martingale_limit_run rows initial_bet L res = Inr s \<and>
     martingale_limit_run (rows @ [r]) initial_bet L res = Inr s' \<and>
     martingale_strategy_with_table_limits (rows @ r # rest) initial_bet (before @ L # after)
       = py_then
           (for_each rest (\<lambda>s x. for_each bet_types (martingale_limit_body initial_bet L x) s) s')
           (\<lambda>e. for_each after (martingale_limit_iteration (rows @ r # rest) initial_bet)
                  (results e)) \<and>
     results s L = Some d \<and> results s' L = Some d' \<and>
     (\<forall>bt. d bt \<noteq> [] \<and> min (limit_bets s bt) L \<le> L \<and>
        d' bt = d bt @
          [if bet_win r bt = 1 then last (d bt) + min (limit_bets s bt) L
           else last (d bt) - min (limit_bets s bt) L] \<and>
        limit_bets s' bt =
          (if bet_win r bt = 1 then initial_bet else min (limit_bets s bt * 2) L) \<and>
        (L = initial_bet \<and> 0 \<le> initial_bet \<longrightarrow> min (limit_bets s bt) L = initial_bet) \<and>
        (L \<notin> set before \<and> L \<notin> set after \<longrightarrow>
           limit_trajectory
             (martingale_strategy_with_table_limits rows initial_bet (before @ L # after)) L bt
             = Inr (d bt) \<and>
           limit_trajectory
             (martingale_strategy_with_table_limits (rows @ [r]) initial_bet (before @ L # after))
             L bt = Inr (d' bt)))"
proof -
  let ?step = "\<lambda>j t r. martingale_limit_track initial_bet L (bet_win r j) t"
  let ?tls = "before @ L # after"
  let ?data = "rows @ r # rest"
  let ?pass = "martingale_limit_iteration ?data initial_bet"
  let ?body = "\<lambda>s x. for_each bet_types (martingale_limit_body initial_bet L x) s"
  let ?s0 = "\<lparr>results = res, limit_bets = (\<lambda>bt. initial_bet)\<rparr>"
  have rdy0: "\<forall>k \<in> set ?tls. results_ready (results_init ?tls) k"
    by (simp add: results_init_ready)
  have "set before \<subseteq> set ?tls" by auto
  from passes_count [of ?pass "length ?data", OF martingale_iteration_appends this rdy0]
  obtain res where res: "for_each before ?pass (results_init ?tls) = Inr res"
    "\<forall>k \<in> set ?tls. results_ready res k"
    "\<forall>k b. \<exists>ys. balances_at res k b = balances_at (results_init ?tls) k b @ ys \<and>
       length ys = length ?data * count_list before k"
    by blast
  then have rdy: "results_ready res L" by simp
  obtain s where s: "martingale_limit_run rows initial_bet L res = Inr s"
    "limit_vars_ok L res s"
    "\<forall>j. limit_track_of L s j = foldl (?step j) (balances_at res L j, initial_bet) rows"
    using martingale_limit_run_track [OF rdy, of rows initial_bet] by blast
  obtain s' where s': "martingale_limit_run (rows @ [r]) initial_bet L res = Inr s'"
    "limit_vars_ok L res s'"
    "\<forall>j. limit_track_of L s' j = foldl (?step j) (balances_at res L j, initial_bet) (rows @ [r])"
    using martingale_limit_run_track [OF rdy, of "rows @ [r]" initial_bet] by blast
  from s(2) obtain d where d: "results s L = Some d" "\<forall>bt. d bt \<noteq> []"
    by (auto simp: limit_vars_ok_def results_ready_def balances_at_def)
  from s'(2) obtain d' where d': "results s' L = Some d'"
    by (auto simp: limit_vars_ok_def results_ready_def)
  have ret: "martingale_strategy_with_table_limits ?data initial_bet ?tls
       = py_then (for_each rest ?body s')
           (\<lambda>e. for_each after ?pass (results e))"
  proof -
    have split: "rows @ r # rest = (rows @ [r]) @ rest" by simp
    have e1: "for_each (rows @ [r]) ?body
        \<lparr>results = res, limit_bets = (\<lambda>bt. initial_bet)\<rparr> = Inr s'"
      using s'(1) unfolding martingale_limit_run_def .
    have "for_each ((rows @ [r]) @ rest) ?body \<lparr>results = res, limit_bets = (\<lambda>bt. initial_bet)\<rparr>
        = py_then (for_each (rows @ [r]) ?body \<lparr>results = res, limit_bets = (\<lambda>bt. initial_bet)\<rparr>)
            (for_each rest ?body)"
      by (rule for_each_append)
    then have run: "martingale_limit_run ?data initial_bet L res = for_each rest ?body s'"
      unfolding martingale_limit_run_def split e1 by simp
    have "martingale_strategy_with_table_limits ?data initial_bet ?tls
        = py_then (for_each before ?pass (results_init ?tls)) (for_each (L # after) ?pass)"
      unfolding martingale_strategy_with_table_limits_def by (rule for_each_append)
    also have "\<dots> = py_then (?pass res L) (for_each after ?pass)"
      unfolding res(1) by simp
    also have "?pass res L = py_then (for_each rest ?body s') (\<lambda>e. Inr (results e))"
      unfolding martingale_limit_iteration_def run ..
    also have "py_then (py_then (for_each rest ?body s') (\<lambda>e. Inr (results e)))
          (for_each after ?pass)
        = py_then (for_each rest ?body s') (\<lambda>e. for_each after ?pass (results e))"
      by (simp add: py_then_assoc)
    finally show ?thesis .
  qed
  have step: "\<forall>bt. (d' bt, limit_bets s' bt)
      = martingale_limit_track initial_bet L (bet_win r bt) (d bt, limit_bets s bt)"
    using s(3) s'(3) d(1) d' by (simp add: limit_track_of_def balances_at_def)
  have a: "\<forall>bt. d' bt = d bt @
          [if bet_win r bt = 1 then last (d bt) + min (limit_bets s bt) L
           else last (d bt) - min (limit_bets s bt) L] \<and>
        limit_bets s' bt =
          (if bet_win r bt = 1 then initial_bet else min (limit_bets s bt * 2) L)"
  proof
    fix bt
    from step have "(d' bt, limit_bets s' bt)
      = martingale_limit_track initial_bet L (bet_win r bt) (d bt, limit_bets s bt)"
      by blast
    then show "d' bt = d bt @
          [if bet_win r bt = 1 then last (d bt) + min (limit_bets s bt) L
           else last (d bt) - min (limit_bets s bt) L] \<and>
        limit_bets s' bt =
          (if bet_win r bt = 1 then initial_bet else min (limit_bets s bt * 2) L)"
      by (simp add: martingale_limit_track_def split: if_splits)
  qed
  have flat: "\<forall>bt. L = initial_bet \<and> 0 \<le> initial_bet \<longrightarrow> min (limit_bets s bt) L = initial_bet"
  proof (intro allI impI)
    fix bt
    assume h: "L = initial_bet \<and> 0 \<le> initial_bet"
    have "limit_bets s bt = snd (limit_track_of L s bt)"
      by (simp add: limit_track_of_def)
    also have "\<dots> = snd (foldl (?step bt) (balances_at res L bt, initial_bet) rows)"
      using s(3) by simp
    also have "\<dots> = initial_bet"
      using h martingale_flat_track [of initial_bet "(balances_at res L bt, initial_bet)"
          "\<lambda>r. bet_win r bt" rows]
      by simp
    finally show "min (limit_bets s bt) L = initial_bet" using h by simp
  qed
  have once: "\<forall>bt. L \<notin> set before \<and> L \<notin> set after \<longrightarrow>
           limit_trajectory
             (martingale_strategy_with_table_limits rows initial_bet ?tls) L bt = Inr (d bt) \<and>
           limit_trajectory
             (martingale_strategy_with_table_limits (rows @ [r]) initial_bet ?tls) L bt
             = Inr (d' bt)"
  proof (intro allI impI)
    fix bt
    assume h: "L \<notin> set before \<and> L \<notin> set after"
    from res(3) obtain ys where "balances_at res L bt = balances_at (results_init ?tls) L bt @ ys"
      "length ys = length ?data * count_list before L"
      by blast
    with h have zero: "balances_at res L bt = [0]"
      by (simp add: balances_at_def results_init_lookup)
    have dd: "d bt = fst (foldl (?step bt) ([0], initial_bet) rows)"
      "d' bt = fst (foldl (?step bt) ([0], initial_bet) (rows @ [r]))"
    proof -
      have "d bt = fst (limit_track_of L s bt)" "d' bt = fst (limit_track_of L s' bt)"
        using d(1) d' by (simp_all add: limit_track_of_def balances_at_def)
      then show "d bt = fst (foldl (?step bt) ([0], initial_bet) rows)"
        "d' bt = fst (foldl (?step bt) ([0], initial_bet) (rows @ [r]))"
        using s(3) s'(3) zero by simp_all
    qed
    from h have h1: "L \<notin> set before" and h2: "L \<notin> set after" by simp_all
    from martingale_limit_once [OF h1 h2, of rows initial_bet] obtain res1
      where res1: "martingale_strategy_with_table_limits rows initial_bet ?tls = Inr res1"
        "results_ready res1 L"
        "\<forall>b. balances_at res1 L b = fst (foldl (?step b) ([0], initial_bet) rows)"
      by blast
    from martingale_limit_once [OF h1 h2, of "rows @ [r]" initial_bet] obtain res2
      where res2: "martingale_strategy_with_table_limits (rows @ [r]) initial_bet ?tls = Inr res2"
        "results_ready res2 L"
        "\<forall>b. balances_at res2 L b = fst (foldl (?step b) ([0], initial_bet) (rows @ [r]))"
      by blast
    have "limit_trajectory (Inr res1) L bt = Inr (d bt)"
      using res1(2,3) dd(1) by (simp add: limit_trajectory_ready)
    moreover have "limit_trajectory (Inr res2) L bt = Inr (d' bt)"
      using res2(2,3) dd(2) by (simp add: limit_trajectory_ready del: foldl_append)
    ultimately show "limit_trajectory
             (martingale_strategy_with_table_limits rows initial_bet ?tls) L bt = Inr (d bt) \<and>
           limit_trajectory
             (martingale_strategy_with_table_limits (rows @ [r]) initial_bet ?tls) L bt
             = Inr (d' bt)"
      unfolding res1(1) res2(1) by simp
  qed
  have le: "\<forall>bt. min (limit_bets s bt) L \<le> L" by simp
  show ?thesis
    apply (rule exI [of _ res], rule exI [of _ s], rule exI [of _ s'])
    apply (rule exI [of _ d], rule exI [of _ d'])
    apply (intro conjI allI)
    apply (insert res(1) s(1) s'(1) ret d d' a flat once le)
    apply blast+
    done
qed

theorem martingale_table_limit_wager_witness:
  "(5::int) = 5 \<and> (0::int) \<le> 5 \<and> (5::int) \<notin> set [] \<and>
   (\<exists>s s'. martingale_limit_run [all_loss] 5 5 (results_init [5]) = Inr s \<and>
      martingale_limit_run ([all_loss] @ [all_loss]) 5 5 (results_init [5]) = Inr s' \<and>
      min (limit_bets s Red) 5 = 5 \<and> limit_bets s' Red = 5 \<and>
      balances_at (results s') 5 Red = [0, - 5, - 10]) \<and>
   limit_trajectory (martingale_strategy_with_table_limits ([all_loss] @ [all_loss]) 5 [5]) 5 Red
     = Inr [0, - 5, - 10]"
proof -
  have ev: "\<exists>s. martingale_limit_run [all_loss] 5 5 (results_init [5]) = Inr s \<and>
      balances_at (results s) 5 Red = [0, - 5] \<and> limit_bets s Red = 5"
    by (simp add: martingale_limit_run_def results_init_def bet_types_def martingale_limit_body_def
        append_result_def py_lookup_def append_balance_def py_index_def all_loss_def
        balances_at_def)
  from martingale_table_limit_wager [of "[]" "[all_loss]" all_loss "[]" 5 5 "[]"] ev
  show ?thesis
    apply (elim exE conjE)
    apply (drule spec [of _ Red])
    apply (auto simp: all_loss_def balances_at_def)
    done
qed

text \<open>
  With the initial bet and the table limit both \<open>- 5\<close>, the bet after one loss is
  \<open>min (- 10) (- 5) = - 10\<close>, so the second wager is \<open>- 10\<close> and not the initial bet: the
  balance moves by 5 and then by 10.
\<close>

theorem martingale_table_limit_wager_counterexample:
  "py_then (martingale_limit_run [all_loss] (- 5) (- 5) (results_init [- 5]))
     (\<lambda>s. Inr (min (limit_bets s Red) (- 5))) = Inr (- 10) \<and>
   limit_trajectory (martingale_strategy_with_table_limits [all_loss, all_loss] (- 5) [- 5]) (- 5) Red
     = Inr [0, 5, 15]"
  by (simp add: martingale_strategy_with_table_limits_def martingale_limit_iteration_def
      martingale_limit_run_def results_init_def bet_types_def martingale_limit_body_def
      append_result_def py_lookup_def append_balance_def py_index_def all_loss_def
      limit_trajectory_def)

section \<open>The Fibonacci progression under a table limit\<close>

lemma extend_sequence_ok:
  assumes "progress_ok (sq, i)"
  shows "extend_sequence sq (i + 1) = Inr (extended sq i)"
proof -
  from assms have "2 \<le> length sq" by (simp add: progress_ok_def)
  moreover from this have "sq \<noteq> []" by auto
  ultimately show ?thesis
    by (simp add: extend_sequence_def extended_def py_index_last py_index_last_but_one)
qed

lemma fibonacci_limit_body_track:
  assumes "fib_limit_vars_ok L res0 s"
  shows "\<exists>s'. fibonacci_limit_body ib L r s k = Inr s' \<and> fib_limit_vars_ok L res0 s' \<and>
    (\<forall>j. fib_limit_track_of L s' j =
       (if j = k then fib_track (\<lambda>x. min x L) ib (bet_win r k) (fib_limit_track_of L s j)
        else fib_limit_track_of L s j))"
proof -
  from assms have rdy: "results_ready (fib_results s) L"
    and frame: "\<forall>j. j = L \<or> fib_results s j = res0 j"
    and ok: "\<forall>bt. progress_ok (limit_sequences s bt, limit_indices s bt)"
    by (simp_all add: fib_limit_vars_ok_def)
  let ?sq = "limit_sequences s k" and ?i = "limit_indices s k"
  let ?bet = "min (?sq ! nat ?i * ib) L"
  let ?delta = "if bet_win r k = 1 then ?bet else - ?bet"
  from ok have k: "progress_ok (?sq, ?i)" by blast
  then have rd: "py_index ?sq ?i = Inr (?sq ! nat ?i)"
    by (simp add: progress_ok_def py_index_nat)
  have ext: "extend_sequence ?sq (?i + 1) = Inr (extended ?sq ?i)"
    using k by (rule extend_sequence_ok)
  have ok': "progress_ok (fib_progress (bet_win r k) (?sq, ?i))"
    using k by (rule progress_ok_step)
  from append_result_ok [OF rdy, of k ?delta] obtain res'
    where res': "append_result (fib_results s) L k ?delta = Inr res'" "results_ready res' L"
      "\<forall>j. j = L \<or> res' j = fib_results s j"
      "\<forall>b. balances_at res' L b =
         (if b = k then balances_at (fib_results s) L k @
            [last (balances_at (fib_results s) L k) + ?delta]
          else balances_at (fib_results s) L b)"
    by blast
  have fr': "\<forall>j. j = L \<or> res' j = res0 j"
    using frame res'(3) by metis
  show ?thesis
  proof (cases "bet_win r k = 1")
    case True
    with res' fr' ok ok' show ?thesis
      by (simp add: fibonacci_limit_body_def Let_def rd fib_limit_vars_ok_def
          fib_limit_track_of_def fib_track_def fib_progress_def)
  next
    case False
    with res' fr' ok ok' show ?thesis
      by (simp add: fibonacci_limit_body_def Let_def rd ext fib_limit_vars_ok_def
          fib_limit_track_of_def fib_track_def fib_progress_def)
  qed
qed

lemma fibonacci_limit_row_track:
  assumes "fib_limit_vars_ok L res0 s"
  shows "\<exists>s'. for_each bet_types (fibonacci_limit_body ib L r) s = Inr s' \<and>
    fib_limit_vars_ok L res0 s' \<and>
    (\<forall>j. fib_limit_track_of L s' j
       = fib_track (\<lambda>x. min x L) ib (bet_win r j) (fib_limit_track_of L s j))"
  using for_each_keys [where I = "fib_limit_vars_ok L res0" and body = "fibonacci_limit_body ib L r"
      and proj = "fib_limit_track_of L" and F = "\<lambda>k. fib_track (\<lambda>x. min x L) ib (bet_win r k)"
      and ks = bet_types and s = s]
    fibonacci_limit_body_track assms
  by (simp add: set_bet_types distinct_bet_types)

lemma fibonacci_limit_run_track:
  assumes "results_ready res L"
  shows "\<exists>s. fibonacci_limit_run data ib L res = Inr s \<and> fib_limit_vars_ok L res s \<and>
    (\<forall>j. fib_limit_track_of L s j =
       foldl (\<lambda>t r. fib_track (\<lambda>x. min x L) ib (bet_win r j) t)
         (balances_at res L j, [1, 1], 0) data)"
proof -
  let ?s0 = "\<lparr>fib_results = res, limit_sequences = (\<lambda>bt. [1, 1]), limit_indices = (\<lambda>bt. 0)\<rparr>"
  have init: "fib_limit_vars_ok L res ?s0"
    using assms by (simp add: fib_limit_vars_ok_def progress_ok_def)
  have "\<exists>s'. for_each data (\<lambda>s r. for_each bet_types (fibonacci_limit_body ib L r) s) ?s0 = Inr s'
      \<and> fib_limit_vars_ok L res s' \<and>
      (\<forall>j. fib_limit_track_of L s' j =
         foldl (\<lambda>t r. fib_track (\<lambda>x. min x L) ib (bet_win r j) t) (fib_limit_track_of L ?s0 j) data)"
    by (rule for_each_fold [where I = "fib_limit_vars_ok L res"])
      (auto intro: fibonacci_limit_row_track init)
  then show ?thesis
    by (simp add: fibonacci_limit_run_def fib_limit_track_of_def)
qed

lemma fibonacci_limit_iteration_track:
  assumes "results_ready res L"
  shows "\<exists>res'. fibonacci_limit_iteration data ib res L = Inr res' \<and> results_ready res' L \<and>
    (\<forall>k. k = L \<or> res' k = res k) \<and>
    (\<forall>j. balances_at res' L j =
       fst (foldl (\<lambda>t r. fib_track (\<lambda>x. min x L) ib (bet_win r j) t)
         (balances_at res L j, [1, 1], 0) data))"
proof -
  from fibonacci_limit_run_track [OF assms, of data ib] obtain s
    where s: "fibonacci_limit_run data ib L res = Inr s" "fib_limit_vars_ok L res s"
      "\<forall>j. fib_limit_track_of L s j =
        foldl (\<lambda>t r. fib_track (\<lambda>x. min x L) ib (bet_win r j) t)
          (balances_at res L j, [1, 1], 0) data"
    by blast
  have "balances_at (fib_results s) L j =
       fst (foldl (\<lambda>t r. fib_track (\<lambda>x. min x L) ib (bet_win r j) t)
         (balances_at res L j, [1, 1], 0) data)"
    for j
    using s(3) [rule_format, of j, symmetric] by (simp add: fib_limit_track_of_def)
  with s(1,2) show ?thesis
    by (simp add: fibonacci_limit_iteration_def fib_limit_vars_ok_def)
qed

lemma fibonacci_limit_iterations_ready:
  assumes "set before \<subseteq> set table_limits"
  shows "\<exists>res. for_each before (fibonacci_limit_iteration data ib) (results_init table_limits)
      = Inr res \<and> (\<forall>k \<in> set table_limits. results_ready res k)"
proof (rule for_each_invariant [where I = "\<lambda>res. \<forall>k \<in> set table_limits. results_ready res k"])
  show "\<forall>k \<in> set table_limits. results_ready (results_init table_limits) k"
    by (simp add: results_init_ready)
next
  fix res L
  assume L: "L \<in> set before" and rdy: "\<forall>k \<in> set table_limits. results_ready res k"
  with assms have "results_ready res L" by blast
  from fibonacci_limit_iteration_track [OF this, of data ib] obtain res'
    where res': "fibonacci_limit_iteration data ib res L = Inr res'" "results_ready res' L"
      "\<forall>k. k = L \<or> res' k = res k"
    by blast
  have "results_ready res' k" if "k \<in> set table_limits" for k
  proof (cases "k = L")
    case True
    with res'(2) show ?thesis by simp
  next
    case False
    with res'(3) have "res' k = res k" by blast
    with rdy that show ?thesis by (simp add: results_ready_def balances_at_def)
  qed
  with res'(1) show "\<exists>res'. fibonacci_limit_iteration data ib res L = Inr res' \<and>
      (\<forall>k \<in> set table_limits. results_ready res' k)"
    by blast
qed

lemma losing_streak_index:
  assumes "list_all (\<lambda>x. f x \<noteq> 1) rows"
  shows "snd (foldl (\<lambda>p r. fib_progress (f r) p) p rows) = snd p + int (length rows)"
  using assms by (induction rows arbitrary: p) (simp_all add: fib_progress_def)

lemma classic_fib_ge: "int n \<le> classic_fib n"
proof (induction n rule: classic_fib.induct)
  case (3 n)
  have "0 < classic_fib n" by (rule classic_fib_pos)
  with 3 show ?case by simp
qed simp_all

lemma fib_prefix_nth_ge:
  assumes "fib_prefix sq" and "0 \<le> i" and "i < int (length sq)"
  shows "i \<le> sq ! nat i"
proof -
  from assms(1) have sq: "sq = map classic_fib [0..<length sq]"
    by (simp add: fib_prefix_def)
  have "sq ! nat i = classic_fib (nat i)"
    using assms(2,3) by (subst sq) simp
  with classic_fib_ge [of "nat i"] assms(2) show ?thesis by simp
qed

lemma fibonacci_iteration_appends:
  assumes "results_ready res k"
  shows "\<exists>res'. fibonacci_limit_iteration data ib res k = Inr res' \<and> results_ready res' k \<and>
    (\<forall>j. j = k \<or> res' j = res j) \<and>
    (\<forall>b. \<exists>ys. balances_at res' k b = balances_at res k b @ ys \<and> length ys = length data)"
proof -
  from fibonacci_limit_iteration_track [OF assms, of data ib] obtain res'
    where res': "fibonacci_limit_iteration data ib res k = Inr res'" "results_ready res' k"
      "\<forall>j. j = k \<or> res' j = res j"
      "\<forall>j. balances_at res' k j =
         fst (foldl (\<lambda>t r. fib_track (\<lambda>x. min x k) ib (bet_win r j) t)
           (balances_at res k j, [1, 1], 0) data)"
    by blast
  have "\<exists>ys. balances_at res' k b = balances_at res k b @ ys \<and> length ys = length data" for b
  proof -
    let ?t0 = "(balances_at res k b, [1, 1 :: int], 0 :: int)"
    have "\<exists>ys. fst (foldl (\<lambda>t r. fib_track (\<lambda>x. min x k) ib (bet_win r b) t) ?t0 data)
          = fst ?t0 @ ys \<and> length ys = length data"
      by (rule track_appends) (simp add: fib_track_def Let_def)
    with res'(4) show ?thesis by simp
  qed
  with res'(1,2,3) show ?thesis by blast
qed

lemma fibonacci_iteration_exact:
  assumes "results_ready res L" and "\<forall>b. balances_at res L b = [0]"
  shows "\<exists>res'. fibonacci_limit_iteration data ib res L = Inr res' \<and>
    (\<forall>b. balances_at res' L b =
       fst (foldl (\<lambda>t r. fib_track (\<lambda>x. min x L) ib (bet_win r b) t) ([0], [1, 1], 0) data))"
  using fibonacci_limit_iteration_track [OF assms(1), of data ib] assms(2) by auto

text \<open>
  What \<^verbatim>\<open>fibonacci_strategy_with_table_limits\<close> returns under a limit that is listed
  once: the trajectory of the one pass for that limit, started from \<open>[0]\<close>.
\<close>

lemma fibonacci_limit_once:
  assumes "L \<notin> set before" and "L \<notin> set after"
  shows "\<exists>res'. fibonacci_strategy_with_table_limits data ib (before @ L # after) = Inr res' \<and>
    results_ready res' L \<and>
    (\<forall>b. balances_at res' L b =
       fst (foldl (\<lambda>t r. fib_track (\<lambda>x. min x L) ib (bet_win r b) t) ([0], [1, 1], 0) data))"
  unfolding fibonacci_strategy_with_table_limits_def
  by (rule passes_once [where n = "length data"
        and track = "\<lambda>b. fst (foldl (\<lambda>t r. fib_track (\<lambda>x. min x L) ib (bet_win r b) t)
            ([0], [1, 1], 0) data)"])
    (rule fibonacci_iteration_appends, assumption, rule fibonacci_iteration_exact,
      assumption, assumption, rule assms(1), rule assms(2))

text \<open>
  Claim C6. Take the call of \<^verbatim>\<open>fibonacci_strategy_with_table_limits\<close> on the spins
  \<open>rows @ r # rest\<close> and the limits \<open>before @ L # after\<close>. Let \<open>res\<close> be \<^verbatim>\<open>results\<close> when the
  pass for this \<open>L\<close> begins, \<open>s\<close> the variables of the pass after the spins \<open>rows\<close> and \<open>s'\<close>
  those after the spin \<open>r\<close>; the call returns what the rest of this pass and the passes
  for \<open>after\<close> make of \<open>s'\<close>, and when \<open>L\<close> is listed once the lists under \<open>L\<close> in \<open>s\<close> and
  \<open>s'\<close> are the trajectories the function returns for \<open>L\<close> on the spins \<open>rows\<close> and on the
  spins \<open>rows @ [r]\<close>. Let \<open>u\<close> be the variables of \<^verbatim>\<open>fibonacci_strategy\<close> after the same
  spins \<open>rows\<close>. For every bet type the sequence and the index in \<open>s\<close> are those in
  \<open>u\<close>; the wager of the spin \<open>r\<close> is \<open>min (sequence[index] * initial_bet) L\<close>, read in
  bounds and at most \<open>L\<close>; the index and the sequence move as in \<^verbatim>\<open>fibonacci_strategy\<close>,
  whatever \<open>L\<close> is. When the bet type lost every spin of \<open>rows\<close>, the index is the number
  of these spins, and once that number has reached \<open>L\<close> (for a positive initial bet) the
  wager is exactly \<open>L\<close>.
\<close>

theorem fibonacci_table_limit_wager:
  "\<exists>res s s' u d d'.
     for_each before (fibonacci_limit_iteration (rows @ r # rest) initial_bet)
       (results_init (before @ L # after)) = Inr res \<and>
     fibonacci_limit_run rows initial_bet L res = Inr s \<and>
     fibonacci_limit_run (rows @ [r]) initial_bet L res = Inr s' \<and>
     fibonacci_run rows initial_bet = Inr u \<and>
     fibonacci_strategy_with_table_limits (rows @ r # rest) initial_bet (before @ L # after)
       = py_then
           (for_each rest (\<lambda>s x. for_each bet_types (fibonacci_limit_body initial_bet L x) s) s')
           (\<lambda>e. for_each after (fibonacci_limit_iteration (rows @ r # rest) initial_bet)
                  (fib_results e)) \<and>
     fib_results s L = Some d \<and> fib_results s' L = Some d' \<and>
     (\<forall>bt. limit_sequences s bt = sequences u bt \<and> limit_indices s bt = indices u bt \<and>
        d bt \<noteq> [] \<and>
        0 \<le> limit_indices s bt \<and> limit_indices s bt < int (length (limit_sequences s bt)) \<and>
        min (limit_sequences s bt ! nat (limit_indices s bt) * initial_bet) L \<le> L \<and>
        d' bt = d bt @
          [if bet_win r bt = 1
           then last (d bt) + min (limit_sequences s bt ! nat (limit_indices s bt) * initial_bet) L
           else last (d bt) - min (limit_sequences s bt ! nat (limit_indices s bt) * initial_bet) L] \<and>
        limit_indices s' bt =
          (if bet_win r bt = 1 then max 0 (limit_indices s bt - 2) else limit_indices s bt + 1) \<and>
        limit_sequences s' bt =
          (if bet_win r bt = 1 then limit_sequences s bt
           else if int (length (limit_sequences s bt)) \<le> limit_indices s bt + 1
             then limit_sequences s bt @
               [last (limit_sequences s bt) +
                limit_sequences s bt ! (length (limit_sequences s bt) - 2)]
             else limit_sequences s bt) \<and>
        (list_all (\<lambda>x. bet_win x bt \<noteq> 1) rows \<longrightarrow>
           limit_indices s bt = int (length rows) \<and>
           (0 < initial_bet \<and> L \<le> int (length rows) \<longrightarrow>
              min (limit_sequences s bt ! nat (limit_indices s bt) * initial_bet) L = L)) \<and>
        (L \<notin> set before \<and> L \<notin> set after \<longrightarrow>
           limit_trajectory
             (fibonacci_strategy_with_table_limits rows initial_bet (before @ L # after)) L bt
             = Inr (d bt) \<and>
           limit_trajectory
             (fibonacci_strategy_with_table_limits (rows @ [r]) initial_bet (before @ L # after))
             L bt = Inr (d' bt)))"
proof -
  let ?step = "\<lambda>j t r. fib_track (\<lambda>x. min x L) initial_bet (bet_win r j) t"
  let ?run = "\<lambda>j rs. foldl (\<lambda>p r. fib_progress (bet_win r j) p) ([1, 1], 0) rs"
  let ?tls = "before @ L # after"
  let ?data = "rows @ r # rest"
  let ?pass = "fibonacci_limit_iteration ?data initial_bet"
  let ?body = "\<lambda>s x. for_each bet_types (fibonacci_limit_body initial_bet L x) s"
  have rdy0: "\<forall>k \<in> set ?tls. results_ready (results_init ?tls) k"
    by (simp add: results_init_ready)
  have "set before \<subseteq> set ?tls" by auto
  from passes_count [of ?pass "length ?data", OF fibonacci_iteration_appends this rdy0]
  obtain res where res: "for_each before ?pass (results_init ?tls) = Inr res"
    "\<forall>k \<in> set ?tls. results_ready res k"
    "\<forall>k b. \<exists>ys. balances_at res k b = balances_at (results_init ?tls) k b @ ys \<and>
       length ys = length ?data * count_list before k"
    by blast
  then have rdy: "results_ready res L" by simp
  obtain s where s: "fibonacci_limit_run rows initial_bet L res = Inr s"
    "fib_limit_vars_ok L res s"
    "\<forall>j. fib_limit_track_of L s j = foldl (?step j) (balances_at res L j, [1, 1], 0) rows"
    using fibonacci_limit_run_track [OF rdy, of rows initial_bet] by blast
  obtain s' where s': "fibonacci_limit_run (rows @ [r]) initial_bet L res = Inr s'"
    "fib_limit_vars_ok L res s'"
    "\<forall>j. fib_limit_track_of L s' j = foldl (?step j) (balances_at res L j, [1, 1], 0) (rows @ [r])"
    using fibonacci_limit_run_track [OF rdy, of "rows @ [r]" initial_bet] by blast
  obtain u where u: "fibonacci_run rows initial_bet = Inr u"
    "\<forall>j. (sequences u j, indices u j) = ?run j rows"
    using fibonacci_run_progress [of rows initial_bet] by blast
  from s(2) obtain d where d: "fib_results s L = Some d" "\<forall>bt. d bt \<noteq> []"
    by (auto simp: fib_limit_vars_ok_def results_ready_def balances_at_def)
  from s'(2) obtain d' where d': "fib_results s' L = Some d'"
    by (auto simp: fib_limit_vars_ok_def results_ready_def)
  have prog: "\<forall>j. (limit_sequences s j, limit_indices s j) = ?run j rows"
  proof
    fix j
    have "(limit_sequences s j, limit_indices s j) = snd (fib_limit_track_of L s j)"
      by (simp add: fib_limit_track_of_def)
    also have "\<dots> = snd (foldl (?step j) (balances_at res L j, [1, 1], 0) rows)"
      using s(3) by simp
    also have "\<dots> = ?run j rows"
      by (simp add: snd_fib_track_fold)
    finally show "(limit_sequences s j, limit_indices s j) = ?run j rows" .
  qed
  have same: "\<forall>bt. limit_sequences s bt = sequences u bt \<and> limit_indices s bt = indices u bt"
  proof
    fix bt
    have "(limit_sequences s bt, limit_indices s bt) = (sequences u bt, indices u bt)"
      using prog u(2) by simp
    then show "limit_sequences s bt = sequences u bt \<and> limit_indices s bt = indices u bt"
      by simp
  qed
  have ok: "\<forall>bt. progress_ok (limit_sequences s bt, limit_indices s bt)"
    using s(2) by (simp add: fib_limit_vars_ok_def)
  then have bounds: "\<forall>bt. 0 \<le> limit_indices s bt \<and>
      limit_indices s bt < int (length (limit_sequences s bt))"
    by (simp add: progress_ok_def)
  have step: "\<forall>bt. (d' bt, limit_sequences s' bt, limit_indices s' bt)
      = fib_track (\<lambda>x. min x L) initial_bet (bet_win r bt)
          (d bt, limit_sequences s bt, limit_indices s bt)"
    using s(3) s'(3) d(1) d' by (simp add: fib_limit_track_of_def balances_at_def)
  have a: "\<forall>bt. d' bt = d bt @
          [if bet_win r bt = 1
           then last (d bt) + min (limit_sequences s bt ! nat (limit_indices s bt) * initial_bet) L
           else last (d bt) - min (limit_sequences s bt ! nat (limit_indices s bt) * initial_bet) L] \<and>
        limit_indices s' bt =
          (if bet_win r bt = 1 then max 0 (limit_indices s bt - 2) else limit_indices s bt + 1) \<and>
        limit_sequences s' bt =
          (if bet_win r bt = 1 then limit_sequences s bt
           else if int (length (limit_sequences s bt)) \<le> limit_indices s bt + 1
             then limit_sequences s bt @
               [last (limit_sequences s bt) +
                limit_sequences s bt ! (length (limit_sequences s bt) - 2)]
             else limit_sequences s bt)"
  proof
    fix bt
    from step have "(d' bt, limit_sequences s' bt, limit_indices s' bt)
      = fib_track (\<lambda>x. min x L) initial_bet (bet_win r bt)
          (d bt, limit_sequences s bt, limit_indices s bt)"
      by blast
    then show "d' bt = d bt @
          [if bet_win r bt = 1
           then last (d bt) + min (limit_sequences s bt ! nat (limit_indices s bt) * initial_bet) L
           else last (d bt) - min (limit_sequences s bt ! nat (limit_indices s bt) * initial_bet) L] \<and>
        limit_indices s' bt =
          (if bet_win r bt = 1 then max 0 (limit_indices s bt - 2) else limit_indices s bt + 1) \<and>
        limit_sequences s' bt =
          (if bet_win r bt = 1 then limit_sequences s bt
           else if int (length (limit_sequences s bt)) \<le> limit_indices s bt + 1
             then limit_sequences s bt @
               [last (limit_sequences s bt) +
                limit_sequences s bt ! (length (limit_sequences s bt) - 2)]
             else limit_sequences s bt)"
      by (simp add: fib_track_def Let_def fib_progress_def extended_def split: if_splits)
  qed
  have streak: "\<forall>bt. list_all (\<lambda>x. bet_win x bt \<noteq> 1) rows \<longrightarrow>
           limit_indices s bt = int (length rows) \<and>
           (0 < initial_bet \<and> L \<le> int (length rows) \<longrightarrow>
              min (limit_sequences s bt ! nat (limit_indices s bt) * initial_bet) L = L)"
  proof (intro allI impI)
    fix bt
    assume loss: "list_all (\<lambda>x. bet_win x bt \<noteq> 1) rows"
    have e: "?run bt rows = (limit_sequences s bt, limit_indices s bt)"
      using prog by simp
    have idx: "limit_indices s bt = int (length rows)"
      using losing_streak_index [OF loss, of "([1, 1], 0)"] e by simp
    have fp: "fib_prefix (limit_sequences s bt)"
      using fib_prefix_fold [of "([1, 1], 0)" "\<lambda>r. bet_win r bt" rows] e
      by (simp add: fib_prefix_seed progress_ok_def)
    have plateau: "min (limit_sequences s bt ! nat (limit_indices s bt) * initial_bet) L = L"
      if h: "0 < initial_bet \<and> L \<le> int (length rows)"
    proof -
      let ?tm = "limit_sequences s bt ! nat (limit_indices s bt)"
      have ge: "limit_indices s bt \<le> ?tm"
        using fib_prefix_nth_ge [OF fp] bounds by blast
      then have "0 \<le> ?tm" using bounds by (meson order_trans)
      then have "?tm * 1 \<le> ?tm * initial_bet"
        using h by (intro mult_left_mono) simp_all
      with ge idx h have "L \<le> ?tm * initial_bet" by simp
      then show ?thesis by simp
    qed
    from idx plateau show "limit_indices s bt = int (length rows) \<and>
           (0 < initial_bet \<and> L \<le> int (length rows) \<longrightarrow>
              min (limit_sequences s bt ! nat (limit_indices s bt) * initial_bet) L = L)"
      by blast
  qed
  have le: "\<forall>bt. min (limit_sequences s bt ! nat (limit_indices s bt) * initial_bet) L \<le> L"
    by simp
  have ret: "fibonacci_strategy_with_table_limits ?data initial_bet ?tls
       = py_then (for_each rest ?body s')
           (\<lambda>e. for_each after ?pass (fib_results e))"
  proof -
    have split: "rows @ r # rest = (rows @ [r]) @ rest" by simp
    have e1: "for_each (rows @ [r]) ?body
        \<lparr>fib_results = res, limit_sequences = (\<lambda>bt. [1, 1]), limit_indices = (\<lambda>bt. 0)\<rparr>
        = Inr s'"
      using s'(1) unfolding fibonacci_limit_run_def .
    have "for_each ((rows @ [r]) @ rest) ?body
        \<lparr>fib_results = res, limit_sequences = (\<lambda>bt. [1, 1]), limit_indices = (\<lambda>bt. 0)\<rparr>
        = py_then (for_each (rows @ [r]) ?body
            \<lparr>fib_results = res, limit_sequences = (\<lambda>bt. [1, 1]), limit_indices = (\<lambda>bt. 0)\<rparr>)
            (for_each rest ?body)"
      by (rule for_each_append)
    then have run: "fibonacci_limit_run ?data initial_bet L res = for_each rest ?body s'"
      unfolding fibonacci_limit_run_def split e1 by simp
    have "fibonacci_strategy_with_table_limits ?data initial_bet ?tls
        = py_then (for_each before ?pass (results_init ?tls)) (for_each (L # after) ?pass)"
      unfolding fibonacci_strategy_with_table_limits_def by (rule for_each_append)
    also have "\<dots> = py_then (?pass res L) (for_each after ?pass)"
      unfolding res(1) by simp
    also have "?pass res L = py_then (for_each rest ?body s') (\<lambda>e. Inr (fib_results e))"
      unfolding fibonacci_limit_iteration_def run ..
    also have "py_then (py_then (for_each rest ?body s') (\<lambda>e. Inr (fib_results e)))
          (for_each after ?pass)
        = py_then (for_each rest ?body s') (\<lambda>e. for_each after ?pass (fib_results e))"
      by (simp add: py_then_assoc)
    finally show ?thesis .
  qed
  have once: "\<forall>bt. L \<notin> set before \<and> L \<notin> set after \<longrightarrow>
           limit_trajectory
             (fibonacci_strategy_with_table_limits rows initial_bet ?tls) L bt = Inr (d bt) \<and>
           limit_trajectory
             (fibonacci_strategy_with_table_limits (rows @ [r]) initial_bet ?tls) L bt
             = Inr (d' bt)"
  proof (intro allI impI)
    fix bt
    assume h: "L \<notin> set before \<and> L \<notin> set after"
    from res(3) obtain ys where "balances_at res L bt = balances_at (results_init ?tls) L bt @ ys"
      "length ys = length ?data * count_list before L"
      by blast
    with h have zero: "balances_at res L bt = [0]"
      by (simp add: balances_at_def results_init_lookup)
    have dd: "d bt = fst (foldl (?step bt) ([0], [1, 1], 0) rows)"
      "d' bt = fst (foldl (?step bt) ([0], [1, 1], 0) (rows @ [r]))"
    proof -
      have "d bt = fst (fib_limit_track_of L s bt)" "d' bt = fst (fib_limit_track_of L s' bt)"
        using d(1) d' by (simp_all add: fib_limit_track_of_def balances_at_def)
      then show "d bt = fst (foldl (?step bt) ([0], [1, 1], 0) rows)"
        "d' bt = fst (foldl (?step bt) ([0], [1, 1], 0) (rows @ [r]))"
        using s(3) s'(3) zero by simp_all
    qed
    from h have h1: "L \<notin> set before" and h2: "L \<notin> set after" by simp_all
    from fibonacci_limit_once [OF h1 h2, of rows initial_bet] obtain res1
      where res1: "fibonacci_strategy_with_table_limits rows initial_bet ?tls = Inr res1"
        "results_ready res1 L"
        "\<forall>b. balances_at res1 L b = fst (foldl (?step b) ([0], [1, 1], 0) rows)"
      by blast
    from fibonacci_limit_once [OF h1 h2, of "rows @ [r]" initial_bet] obtain res2
      where res2: "fibonacci_strategy_with_table_limits (rows @ [r]) initial_bet ?tls = Inr res2"
        "results_ready res2 L"
        "\<forall>b. balances_at res2 L b = fst (foldl (?step b) ([0], [1, 1], 0) (rows @ [r]))"
      by blast
    have "limit_trajectory (Inr res1) L bt = Inr (d bt)"
      using res1(2,3) dd(1) by (simp add: limit_trajectory_ready)
    moreover have "limit_trajectory (Inr res2) L bt = Inr (d' bt)"
      using res2(2,3) dd(2) by (simp add: limit_trajectory_ready del: foldl_append)
    ultimately show "limit_trajectory
             (fibonacci_strategy_with_table_limits rows initial_bet ?tls) L bt = Inr (d bt) \<and>
           limit_trajectory
             (fibonacci_strategy_with_table_limits (rows @ [r]) initial_bet ?tls) L bt
             = Inr (d' bt)"
      unfolding res1(1) res2(1) by simp
  qed
  show ?thesis
    apply (rule exI [of _ res], rule exI [of _ s], rule exI [of _ s'], rule exI [of _ u])
    apply (rule exI [of _ d], rule exI [of _ d'])
    apply (intro conjI allI)
    apply (insert res(1) s(1) s'(1) u(1) ret d d' same bounds a streak le once)
    apply blast+
    done
qed

theorem fibonacci_table_limit_wager_witness:
  "list_all (\<lambda>x. bet_win x Red \<noteq> 1) [all_loss, all_loss, all_loss] \<and>
   (0::int) < 1 \<and> (2::int) \<le> int (length [all_loss, all_loss, all_loss]) \<and>
   (2::int) \<notin> set [] \<and>
   (\<exists>s s'. fibonacci_limit_run [all_loss, all_loss, all_loss] 1 2 (results_init [2]) = Inr s \<and>
      fibonacci_limit_run ([all_loss, all_loss, all_loss] @ [all_loss]) 1 2 (results_init [2])
        = Inr s' \<and>
      limit_indices s Red = 3 \<and>
      min (limit_sequences s Red ! nat (limit_indices s Red) * 1) 2 = 2 \<and>
      limit_indices s' Red = 4 \<and>
      balances_at (fib_results s') 2 Red = [0, - 1, - 2, - 4, - 6]) \<and>
   limit_trajectory
     (fibonacci_strategy_with_table_limits ([all_loss, all_loss, all_loss] @ [all_loss]) 1 [2])
     2 Red = Inr [0, - 1, - 2, - 4, - 6]"
proof -
  have ev: "\<exists>s. fibonacci_limit_run [all_loss, all_loss, all_loss] 1 2 (results_init [2]) = Inr s \<and>
      balances_at (fib_results s) 2 Red = [0, - 1, - 2, - 4]"
    by (simp add: fibonacci_limit_run_def results_init_def bet_types_def fibonacci_limit_body_def
        extend_sequence_def append_result_def py_lookup_def append_balance_def py_index_def
        all_loss_def balances_at_def)
  have loss: "list_all (\<lambda>x. bet_win x Red \<noteq> 1) [all_loss, all_loss, all_loss]"
    by (simp add: all_loss_def)
  from fibonacci_table_limit_wager
    [of "[]" "[all_loss, all_loss, all_loss]" all_loss "[]" 1 2 "[]"] ev loss
  show ?thesis
    apply (elim exE conjE)
    apply (drule spec [of _ Red])
    apply (auto simp: all_loss_def balances_at_def)
    done
qed

text \<open>
  Claim C10. Neither \<^verbatim>\<open>fibonacci_strategy\<close> nor \<^verbatim>\<open>fibonacci_strategy_with_table_limits\<close>
  raises, on any spins, initial bet and list of limits. After any spins \<open>rows\<close> (the spins
  before a wager), in \<^verbatim>\<open>fibonacci_strategy\<close> and in the pass of any limit \<open>L\<close> of the
  variant, the index of every bet type is at least 0 and less than the length of its
  sequence, so the read \<^verbatim>\<open>sequences[bet_type][current_index]\<close> of the next wager returns
  the term at that index.
\<close>

theorem fibonacci_index_in_bounds:
  "(\<exists>b. fibonacci_strategy data initial_bet = Inr b) \<and>
   (\<exists>res. fibonacci_strategy_with_table_limits data initial_bet table_limits = Inr res) \<and>
   (\<exists>s. fibonacci_run rows initial_bet = Inr s \<and>
      (\<forall>bt. 0 \<le> indices s bt \<and> indices s bt < int (length (sequences s bt)) \<and>
         py_index (sequences s bt) (indices s bt) = Inr (sequences s bt ! nat (indices s bt)))) \<and>
   (\<exists>res s. for_each before (fibonacci_limit_iteration data initial_bet)
        (results_init (before @ L # after)) = Inr res \<and>
      fibonacci_limit_run rows initial_bet L res = Inr s \<and>
      (\<forall>bt. 0 \<le> limit_indices s bt \<and>
         limit_indices s bt < int (length (limit_sequences s bt)) \<and>
         py_index (limit_sequences s bt) (limit_indices s bt)
           = Inr (limit_sequences s bt ! nat (limit_indices s bt))))"
proof (intro conjI)
  show "\<exists>b. fibonacci_strategy data initial_bet = Inr b"
    using fibonacci_run_track [of data initial_bet]
    by (auto simp: fibonacci_strategy_def)
next
  show "\<exists>res. fibonacci_strategy_with_table_limits data initial_bet table_limits = Inr res"
    using fibonacci_limit_iterations_ready [of table_limits table_limits data initial_bet]
    by (auto simp: fibonacci_strategy_with_table_limits_def)
next
  obtain s where s: "fibonacci_run rows initial_bet = Inr s" "fib_vars_ok s"
    using fibonacci_run_track [of rows initial_bet] by blast
  from s(2) have "\<forall>bt. 0 \<le> indices s bt \<and> indices s bt < int (length (sequences s bt))"
    by (simp add: fib_vars_ok_def progress_ok_def)
  then have "\<forall>bt. 0 \<le> indices s bt \<and> indices s bt < int (length (sequences s bt)) \<and>
         py_index (sequences s bt) (indices s bt) = Inr (sequences s bt ! nat (indices s bt))"
    by (simp add: py_index_nat)
  with s(1) show "\<exists>s. fibonacci_run rows initial_bet = Inr s \<and>
      (\<forall>bt. 0 \<le> indices s bt \<and> indices s bt < int (length (sequences s bt)) \<and>
         py_index (sequences s bt) (indices s bt) = Inr (sequences s bt ! nat (indices s bt)))"
    by blast
next
  obtain res where res:
    "for_each before (fibonacci_limit_iteration data initial_bet)
       (results_init (before @ L # after)) = Inr res"
    "\<forall>k \<in> set (before @ L # after). results_ready res k"
    using fibonacci_limit_iterations_ready [of before "before @ L # after" data initial_bet]
    by auto
  then have rdy: "results_ready res L" by simp
  obtain s where s: "fibonacci_limit_run rows initial_bet L res = Inr s"
    "fib_limit_vars_ok L res s"
    using fibonacci_limit_run_track [OF rdy, of rows initial_bet] by blast
  from s(2) have "\<forall>bt. 0 \<le> limit_indices s bt \<and>
      limit_indices s bt < int (length (limit_sequences s bt))"
    by (simp add: fib_limit_vars_ok_def progress_ok_def)
  then have "\<forall>bt. 0 \<le> limit_indices s bt \<and>
         limit_indices s bt < int (length (limit_sequences s bt)) \<and>
         py_index (limit_sequences s bt) (limit_indices s bt)
           = Inr (limit_sequences s bt ! nat (limit_indices s bt))"
    by (simp add: py_index_nat)
  with res(1) s(1) show "\<exists>res s. for_each before (fibonacci_limit_iteration data initial_bet)
        (results_init (before @ L # after)) = Inr res \<and>
      fibonacci_limit_run rows initial_bet L res = Inr s \<and>
      (\<forall>bt. 0 \<le> limit_indices s bt \<and>
         limit_indices s bt < int (length (limit_sequences s bt)) \<and>
         py_index (limit_sequences s bt) (limit_indices s bt)
           = Inr (limit_sequences s bt ! nat (limit_indices s bt)))"
    by blast
qed

theorem fibonacci_index_in_bounds_witness:
  "\<exists>s. fibonacci_run [all_loss, all_loss, all_win] 3 = Inr s \<and>
     indices s Red = 0 \<and> sequences s Red = [1, 1, 2] \<and>
     py_index (sequences s Red) (indices s Red) = Inr 1"
proof -
  have ev: "\<exists>s. fibonacci_run [all_loss, all_loss, all_win] 3 = Inr s \<and>
      indices s Red = 0 \<and> sequences s Red = [1, 1, 2]"
    by (simp add: fibonacci_run_def fib_vars_init_def bet_types_def fibonacci_body_def
        extend_sequence_def append_balance_def py_index_def all_loss_def all_win_def)
  from fibonacci_index_in_bounds [of "[]" 3 "[]" "[all_loss, all_loss, all_win]" "[]" 0 "[]"] ev
  show ?thesis
    apply (elim exE conjE)
    apply (drule spec [of _ Red])
    apply auto
    done
qed

section \<open>The random bets of \<^verbatim>\<open>no_strategy\<close>\<close>

lemma py_randint_5_20: "py_randint entropy k 5 20 = Inr (5 + int (entropy k mod 16))"
  by (simp add: py_randint_def)

lemma py_randint_5_20_unique:
  assumes "5 \<le> v" and "v \<le> 20"
  shows "\<exists>!x. x < 16 \<and> py_randint (\<lambda>k. x) j 5 20 = Inr v"
proof (rule ex1I [of _ "nat (v - 5)"])
  show "nat (v - 5) < 16 \<and> py_randint (\<lambda>k. nat (v - 5)) j 5 20 = Inr v"
    using assms by (simp add: py_randint_5_20)
next
  fix x :: nat
  assume x: "x < 16 \<and> py_randint (\<lambda>k. x) j 5 20 = Inr v"
  then have "x mod 16 = x" by simp
  with x have "5 + int x = v" by (simp add: py_randint_5_20)
  then show "x = nat (v - 5)" by simp
qed

lemma no_strategy_body_ok:
  assumes "\<forall>bt. ns_balances s bt \<noteq> []"
    and bet: "(if spin = 0 then Inr ib else py_randint entropy (rng_calls s) 5 20) = Inr bet"
  shows "\<exists>s'. no_strategy_body entropy ib s (spin, r) = Inr s' \<and>
    rng_calls s' = (if spin = 0 then rng_calls s else Suc (rng_calls s)) \<and>
    (\<forall>bt. ns_balances s' bt = ns_balances s bt @
       [last (ns_balances s bt) + (if bet_win r bt = 1 then bet else - bet)])"
proof -
  let ?b1 = "(ns_balances s)(Red := ns_balances s Red @
      [last (ns_balances s Red) + (if red_bet_win r = 1 then bet else - bet)])"
  let ?b2 = "?b1(Black := ns_balances s Black @
      [last (ns_balances s Black) + (if black_bet_win r = 1 then bet else - bet)])"
  let ?b3 = "?b2(Even := ns_balances s Even @
      [last (ns_balances s Even) + (if even_bet_win r = 1 then bet else - bet)])"
  let ?b4 = "?b3(Odd := ns_balances s Odd @
      [last (ns_balances s Odd) + (if odd_bet_win r = 1 then bet else - bet)])"
  have ne: "ns_balances s Red \<noteq> []" "ns_balances s Black \<noteq> []" "ns_balances s Even \<noteq> []"
    "ns_balances s Odd \<noteq> []"
    using assms(1) by simp_all
  have a1: "append_balance (ns_balances s) Red (if red_bet_win r = 1 then bet else - bet) = Inr ?b1"
    using ne by (simp add: append_balance_ok)
  have a2: "append_balance ?b1 Black (if black_bet_win r = 1 then bet else - bet) = Inr ?b2"
    using ne by (simp add: append_balance_ok)
  have a3: "append_balance ?b2 Even (if even_bet_win r = 1 then bet else - bet) = Inr ?b3"
    using ne by (simp add: append_balance_ok)
  have a4: "append_balance ?b3 Odd (if odd_bet_win r = 1 then bet else - bet) = Inr ?b4"
    using ne by (simp add: append_balance_ok)
  have run: "no_strategy_body entropy ib s (spin, r)
      = Inr \<lparr>ns_balances = ?b4, rng_calls = (if spin = 0 then rng_calls s else Suc (rng_calls s))\<rparr>"
    unfolding no_strategy_body_def Let_def fst_conv snd_conv bet a1 a2 a3 a4 py_then_Inr ..
  have "?b4 bt = ns_balances s bt @
       [last (ns_balances s bt) + (if bet_win r bt = 1 then bet else - bet)]" for bt
    by (cases bt) simp_all
  with run show ?thesis by simp
qed

lemma no_strategy_bet_exists:
  "\<exists>bet. (if spin = (0::nat) then Inr ib else py_randint entropy k 5 20) = Inr bet"
  by (simp add: py_randint_5_20)

lemma nonempty_of_length:
  assumes "\<forall>bt. length (f bt) = n + 1 \<and> P bt"
  shows "\<forall>bt. f bt \<noteq> []"
proof (intro allI notI)
  fix bt :: 'a
  assume "f bt = []"
  moreover from assms have "length (f bt) = n + 1" by blast
  ultimately show False by simp
qed

lemma no_strategy_run_snoc:
  "no_strategy_run entropy (rows @ [r]) ib
     = py_then (no_strategy_run entropy rows ib)
         (\<lambda>s. no_strategy_body entropy ib s (length rows, r))"
  by (simp add: no_strategy_run_def enumerate_append_eq for_each_snoc)

lemma no_strategy_run_shape:
  "\<exists>s. no_strategy_run entropy rows ib = Inr s \<and> rng_calls s = length rows - 1 \<and>
     (\<forall>bt. length (ns_balances s bt) = length rows + 1 \<and> ns_balances s bt ! 0 = 0)"
proof (induction rows rule: rev_induct)
  case Nil
  show ?case by (simp add: no_strategy_run_def no_strategy_init_def)
next
  case (snoc r rows)
  then obtain s where s: "no_strategy_run entropy rows ib = Inr s"
    "rng_calls s = length rows - 1"
    "\<forall>bt. length (ns_balances s bt) = length rows + 1 \<and> ns_balances s bt ! 0 = 0"
    by blast
  from s(3) have ne: "\<forall>bt. ns_balances s bt \<noteq> []"
    by (rule nonempty_of_length)
  obtain bet where bet:
    "(if length rows = 0 then Inr ib else py_randint entropy (rng_calls s) 5 20) = Inr bet"
    using no_strategy_bet_exists [of "length rows" ib entropy "rng_calls s"] by blast
  from no_strategy_body_ok [OF ne bet, of r] obtain s'
    where s': "no_strategy_body entropy ib s (length rows, r) = Inr s'"
      "rng_calls s' = (if length rows = 0 then rng_calls s else Suc (rng_calls s))"
      "\<forall>bt. \<exists>v. ns_balances s' bt = ns_balances s bt @ [v]"
    by blast
  have "length (ns_balances s' bt) = length (rows @ [r]) + 1 \<and> ns_balances s' bt ! 0 = 0" for bt
  proof -
    from s'(3) obtain v where "ns_balances s' bt = ns_balances s bt @ [v]" by blast
    with s(3) ne show ?thesis by (simp add: nth_append)
  qed
  moreover have "rng_calls s' = length (rows @ [r]) - 1"
    using s'(2) s(2) by (cases rows) simp_all
  ultimately show ?case using s(1) s'(1) by (simp add: no_strategy_run_snoc)
qed

lemma no_strategy_step:
  "\<exists>s s'. no_strategy_run entropy rows ib = Inr s \<and>
     no_strategy_run entropy (rows @ [r]) ib = Inr s' \<and>
     rng_calls s = length rows - 1 \<and> rng_calls s' = length rows \<and>
     (\<forall>bt. ns_balances s bt \<noteq> [] \<and>
        ns_balances s' bt = ns_balances s bt @
          [if bet_win r bt = 1
           then last (ns_balances s bt) +
             (if rows = [] then ib else 5 + int (entropy (length rows - 1) mod 16))
           else last (ns_balances s bt) -
             (if rows = [] then ib else 5 + int (entropy (length rows - 1) mod 16))])"
proof -
  let ?bet = "if rows = [] then ib else 5 + int (entropy (length rows - 1) mod 16)"
  obtain s where s: "no_strategy_run entropy rows ib = Inr s"
    "rng_calls s = length rows - 1"
    "\<forall>bt. length (ns_balances s bt) = length rows + 1 \<and> ns_balances s bt ! 0 = 0"
    using no_strategy_run_shape [of entropy rows ib] by blast
  from s(3) have ne: "\<forall>bt. ns_balances s bt \<noteq> []"
    by (rule nonempty_of_length)
  have bet: "(if length rows = 0 then Inr ib else py_randint entropy (rng_calls s) 5 20)
      = Inr ?bet"
    using s(2) by (simp add: py_randint_5_20)
  from no_strategy_body_ok [OF ne bet, of r] obtain s'
    where s': "no_strategy_body entropy ib s (length rows, r) = Inr s'"
      "rng_calls s' = (if length rows = 0 then rng_calls s else Suc (rng_calls s))"
      "\<forall>bt. ns_balances s' bt = ns_balances s bt @
        [last (ns_balances s bt) + (if bet_win r bt = 1 then ?bet else - ?bet)]"
    by blast
  have run': "no_strategy_run entropy (rows @ [r]) ib = Inr s'"
    using s(1) s'(1) by (simp add: no_strategy_run_snoc)
  have calls: "rng_calls s' = length rows"
    using s'(2) s(2) by (cases rows) simp_all
  have app: "\<forall>bt. ns_balances s bt \<noteq> [] \<and>
        ns_balances s' bt = ns_balances s bt @
          [if bet_win r bt = 1 then last (ns_balances s bt) + ?bet
           else last (ns_balances s bt) - ?bet]"
  proof
    fix bt
    from s'(3) have "ns_balances s' bt = ns_balances s bt @
        [last (ns_balances s bt) + (if bet_win r bt = 1 then ?bet else - ?bet)]"
      by blast
    moreover from ne have "ns_balances s bt \<noteq> []" by blast
    ultimately show "ns_balances s bt \<noteq> [] \<and>
        ns_balances s' bt = ns_balances s bt @
          [if bet_win r bt = 1 then last (ns_balances s bt) + ?bet
           else last (ns_balances s bt) - ?bet]"
      by (cases "bet_win r bt = 1") simp_all
  qed
  show ?thesis
    by (intro exI [of _ s] exI [of _ s'] conjI) (rule s(1), rule run', rule s(2), rule calls, rule app)
qed

text \<open>
  Claim C9, as amended. Let \<open>s\<close> be the variables of \<^verbatim>\<open>no_strategy\<close> after the spins \<open>rows\<close>
  and \<open>s'\<close> those after one more spin \<open>r\<close>. One bet is fixed for the spin \<open>r\<close>: the initial
  bet when it is the first spin, and otherwise the value of one call
  \<^verbatim>\<open>random.randint(5, 20)\<close>, the only call of that spin (after \<open>n\<close> spins, \<open>n - 1\<close> calls
  have been made). That one bet is wagered on all four bet types: each balance list
  grows by its last balance plus the bet on a win and minus the bet on a loss. The bet
  of a later spin lies between 5 and 20. It does not depend on the history: a run with
  other earlier draws, other rows and another initial bet wagers the same amount on this
  spin whenever the generator's raw outcome for the call of this spin is the same. And
  each of the sixteen values from 5 to 20 is the bet for exactly one of the sixteen
  residues of that raw outcome, so that equally likely raw outcomes give equally likely
  bets.
\<close>

theorem no_strategy_bets:
  "\<exists>s s' bet.
     no_strategy_run entropy rows initial_bet = Inr s \<and>
     no_strategy_run entropy (rows @ [r]) initial_bet = Inr s' \<and>
     no_strategy entropy (rows @ [r]) initial_bet = Inr (ns_balances s') \<and>
     rng_calls s = length rows - 1 \<and> rng_calls s' = length rows \<and>
     (if rows = [] then Inr initial_bet else py_randint entropy (rng_calls s) 5 20) = Inr bet \<and>
     (\<forall>bt. ns_balances s bt \<noteq> [] \<and>
        ns_balances s' bt = ns_balances s bt @
          [if bet_win r bt = 1 then last (ns_balances s bt) + bet
           else last (ns_balances s bt) - bet]) \<and>
     (rows = [] \<longrightarrow> bet = initial_bet) \<and>
     (rows \<noteq> [] \<longrightarrow>
        5 \<le> bet \<and> bet \<le> 20 \<and> bet = 5 + int (entropy (length rows - 1) mod 16)) \<and>
     (\<forall>entropy' rows' initial_bet'.
        rows \<noteq> [] \<and> length rows' = length rows \<and>
        entropy' (length rows - 1) = entropy (length rows - 1) \<longrightarrow>
        (\<exists>t t'. no_strategy_run entropy' rows' initial_bet' = Inr t \<and>
           no_strategy_run entropy' (rows' @ [r]) initial_bet' = Inr t' \<and>
           (\<forall>bt. ns_balances t' bt = ns_balances t bt @
              [if bet_win r bt = 1 then last (ns_balances t bt) + bet
               else last (ns_balances t bt) - bet]))) \<and>
     (\<forall>v. 5 \<le> v \<and> v \<le> 20 \<longrightarrow>
        (\<exists>!x. x < 16 \<and> py_randint (\<lambda>k. x) (length rows - 1) 5 20 = Inr v))"
proof -
  let ?bet = "if rows = [] then initial_bet else 5 + int (entropy (length rows - 1) mod 16)"
  from no_strategy_step [of entropy rows initial_bet r] obtain s s'
    where s: "no_strategy_run entropy rows initial_bet = Inr s"
      and run': "no_strategy_run entropy (rows @ [r]) initial_bet = Inr s'"
      and calls: "rng_calls s = length rows - 1" "rng_calls s' = length rows"
      and app: "\<forall>bt. ns_balances s bt \<noteq> [] \<and>
        ns_balances s' bt = ns_balances s bt @
          [if bet_win r bt = 1 then last (ns_balances s bt) + ?bet
           else last (ns_balances s bt) - ?bet]"
    by blast
  have ret: "no_strategy entropy (rows @ [r]) initial_bet = Inr (ns_balances s')"
    using run' by (simp add: no_strategy_def)
  have bet: "(if rows = [] then Inr initial_bet else py_randint entropy (rng_calls s) 5 20)
      = Inr ?bet"
    using calls(1) by (simp add: py_randint_5_20)
  have first: "rows = [] \<longrightarrow> ?bet = initial_bet"
    by simp
  have later: "rows \<noteq> [] \<longrightarrow>
        5 \<le> ?bet \<and> ?bet \<le> 20 \<and> ?bet = 5 + int (entropy (length rows - 1) mod 16)"
  proof
    assume ne: "rows \<noteq> []"
    have "entropy (length rows - 1) mod 16 < 16" by simp
    then have "int (entropy (length rows - 1) mod 16) \<le> 15" by linarith
    with ne show "5 \<le> ?bet \<and> ?bet \<le> 20 \<and>
        ?bet = 5 + int (entropy (length rows - 1) mod 16)"
      by simp
  qed
  have hist: "\<forall>entropy' rows' initial_bet'.
        rows \<noteq> [] \<and> length rows' = length rows \<and>
        entropy' (length rows - 1) = entropy (length rows - 1) \<longrightarrow>
        (\<exists>t t'. no_strategy_run entropy' rows' initial_bet' = Inr t \<and>
           no_strategy_run entropy' (rows' @ [r]) initial_bet' = Inr t' \<and>
           (\<forall>bt. ns_balances t' bt = ns_balances t bt @
              [if bet_win r bt = 1 then last (ns_balances t bt) + ?bet
               else last (ns_balances t bt) - ?bet]))"
  proof (intro allI impI)
    fix entropy' :: "nat \<Rightarrow> nat" and rows' :: "row list" and initial_bet' :: int
    assume h: "rows \<noteq> [] \<and> length rows' = length rows \<and>
        entropy' (length rows - 1) = entropy (length rows - 1)"
    then have ne: "rows' \<noteq> []" by auto
    let ?bet' = "if rows' = [] then initial_bet'
      else 5 + int (entropy' (length rows' - 1) mod 16)"
    from h ne have same: "?bet' = ?bet" by simp
    from no_strategy_step [of entropy' rows' initial_bet' r] obtain t t'
      where t: "no_strategy_run entropy' rows' initial_bet' = Inr t"
        "no_strategy_run entropy' (rows' @ [r]) initial_bet' = Inr t'"
        "\<forall>bt. ns_balances t bt \<noteq> [] \<and>
          ns_balances t' bt = ns_balances t bt @
            [if bet_win r bt = 1 then last (ns_balances t bt) + ?bet'
             else last (ns_balances t bt) - ?bet']"
      by blast
    from t(3) have "\<forall>bt. ns_balances t' bt = ns_balances t bt @
            [if bet_win r bt = 1 then last (ns_balances t bt) + ?bet
             else last (ns_balances t bt) - ?bet]"
      unfolding same by blast
    with t(1,2) show "\<exists>t t'. no_strategy_run entropy' rows' initial_bet' = Inr t \<and>
           no_strategy_run entropy' (rows' @ [r]) initial_bet' = Inr t' \<and>
           (\<forall>bt. ns_balances t' bt = ns_balances t bt @
              [if bet_win r bt = 1 then last (ns_balances t bt) + ?bet
               else last (ns_balances t bt) - ?bet])"
      by blast
  qed
  have unif: "\<forall>v. 5 \<le> v \<and> v \<le> 20 \<longrightarrow>
        (\<exists>!x. x < 16 \<and> py_randint (\<lambda>k. x) (length rows - 1) 5 20 = Inr v)"
    using py_randint_5_20_unique by blast
  show ?thesis
    apply (rule exI [of _ s], rule exI [of _ s'], rule exI [of _ ?bet])
    apply (intro conjI)
    apply (rule s, rule run', rule ret, rule calls(1), rule calls(2), rule bet, rule app)
    apply (rule first, rule later, rule hist, rule unif)
    done
qed

theorem no_strategy_bets_witness:
  "[all_win, all_win] \<noteq> [] \<and> length [all_loss, all_loss] = length [all_win, all_win] \<and>
   (\<lambda>k. if k = 1 then 2 else 11 :: nat) (length [all_win, all_win] - 1)
     = (\<lambda>k. 2) (length [all_win, all_win] - 1) \<and>
   (5::int) \<le> 12 \<and> (12::int) \<le> 20 \<and>
   (\<exists>s'. no_strategy_run (\<lambda>k. 2) ([all_win, all_win] @ [all_loss]) 10 = Inr s' \<and>
      rng_calls s' = 2 \<and> py_randint (\<lambda>k. 2) 1 5 20 = Inr 7 \<and>
      ns_balances s' Red = [0, 10, 17, 10] \<and> ns_balances s' Odd = [0, 10, 17, 10]) \<and>
   (\<exists>t'. no_strategy_run (\<lambda>k. if k = 1 then 2 else 11)
        ([all_loss, all_loss] @ [all_loss]) 3 = Inr t' \<and>
      ns_balances t' Red = [0, - 3, - 19, - 26]) \<and>
   (\<exists>!x. x < 16 \<and> py_randint (\<lambda>k. x) (length [all_win, all_win] - 1) 5 20 = Inr 12)"
proof -
  let ?e = "\<lambda>k::nat. 2 :: nat" and ?e' = "\<lambda>k::nat. if k = 1 then 2 else 11 :: nat"
  have ev: "\<exists>s. no_strategy_run ?e [all_win, all_win] 10 = Inr s \<and>
      ns_balances s Red = [0, 10, 17] \<and> ns_balances s Odd = [0, 10, 17]"
    by (simp add: no_strategy_run_def no_strategy_init_def no_strategy_body_def py_randint_def
        append_balance_def py_index_def all_win_def)
  have ev': "\<exists>t. no_strategy_run ?e' [all_loss, all_loss] 3 = Inr t \<and>
      ns_balances t Red = [0, - 3, - 19]"
    by (simp add: no_strategy_run_def no_strategy_init_def no_strategy_body_def py_randint_def
        append_balance_def py_index_def all_loss_def)
  from no_strategy_bets [of ?e "[all_win, all_win]" 10 all_loss]
  obtain s s' bet where f:
    "no_strategy_run ?e [all_win, all_win] 10 = Inr s"
    "no_strategy_run ?e ([all_win, all_win] @ [all_loss]) 10 = Inr s'"
    "rng_calls s' = length [all_win, all_win]"
    "\<forall>bt. ns_balances s bt \<noteq> [] \<and>
        ns_balances s' bt = ns_balances s bt @
          [if bet_win all_loss bt = 1 then last (ns_balances s bt) + bet
           else last (ns_balances s bt) - bet]"
    "[all_win, all_win] \<noteq> [] \<longrightarrow>
        5 \<le> bet \<and> bet \<le> 20 \<and> bet = 5 + int (?e (length [all_win, all_win] - 1) mod 16)"
    "\<forall>entropy' rows' initial_bet'.
        [all_win, all_win] \<noteq> [] \<and> length rows' = length [all_win, all_win] \<and>
        entropy' (length [all_win, all_win] - 1) = ?e (length [all_win, all_win] - 1) \<longrightarrow>
        (\<exists>t t'. no_strategy_run entropy' rows' initial_bet' = Inr t \<and>
           no_strategy_run entropy' (rows' @ [all_loss]) initial_bet' = Inr t' \<and>
           (\<forall>bt. ns_balances t' bt = ns_balances t bt @
              [if bet_win all_loss bt = 1 then last (ns_balances t bt) + bet
               else last (ns_balances t bt) - bet]))"
    "\<forall>v. 5 \<le> v \<and> v \<le> 20 \<longrightarrow>
        (\<exists>!x. x < 16 \<and> py_randint (\<lambda>k. x) (length [all_win, all_win] - 1) 5 20 = Inr v)"
    by blast
  from f(5) have bet: "bet = 7" by simp
  from ev f(1) have s: "ns_balances s Red = [0, 10, 17]" "ns_balances s Odd = [0, 10, 17]"
    by auto
  from f(4) have "ns_balances s' Red = ns_balances s Red @
          [if bet_win all_loss Red = 1 then last (ns_balances s Red) + bet
           else last (ns_balances s Red) - bet]"
    and "ns_balances s' Odd = ns_balances s Odd @
          [if bet_win all_loss Odd = 1 then last (ns_balances s Odd) + bet
           else last (ns_balances s Odd) - bet]"
    by blast+
  then have s': "ns_balances s' Red = [0, 10, 17, 10]" "ns_balances s' Odd = [0, 10, 17, 10]"
    using s bet by (simp_all add: all_loss_def)
  have h: "[all_win, all_win] \<noteq> [] \<and> length [all_loss, all_loss] = length [all_win, all_win] \<and>
      ?e' (length [all_win, all_win] - 1) = ?e (length [all_win, all_win] - 1)"
    by simp
  from f(6) [rule_format, of "[all_loss, all_loss]" ?e' 3, OF h] obtain t t'
    where t: "no_strategy_run ?e' [all_loss, all_loss] 3 = Inr t"
      "no_strategy_run ?e' ([all_loss, all_loss] @ [all_loss]) 3 = Inr t'"
      "\<forall>bt. ns_balances t' bt = ns_balances t bt @
              [if bet_win all_loss bt = 1 then last (ns_balances t bt) + bet
               else last (ns_balances t bt) - bet]"
    by blast
  from ev' t(1) have tr: "ns_balances t Red = [0, - 3, - 19]" by auto
  from t(3) have "ns_balances t' Red = ns_balances t Red @
              [if bet_win all_loss Red = 1 then last (ns_balances t Red) + bet
               else last (ns_balances t Red) - bet]"
    by blast
  then have t': "ns_balances t' Red = [0, - 3, - 19, - 26]"
    using tr bet by (simp add: all_loss_def)
  from f(7) have u: "\<exists>!x. x < 16 \<and>
      py_randint (\<lambda>k. x) (length [all_win, all_win] - 1) 5 20 = Inr 12"
    by simp
  have r: "py_randint ?e 1 5 20 = Inr 7"
    by (simp add: py_randint_5_20)
  have c: "rng_calls s' = 2" using f(3) by simp
  show ?thesis
    apply (intro conjI)
    apply (simp, simp, simp, simp, simp)
    apply (rule exI [of _ s'], intro conjI, rule f(2), rule c, rule r, rule s'(1), rule s'(2))
    apply (rule exI [of _ t'], intro conjI, rule t(2), rule t')
    apply (rule u)
    done
qed

text \<open>
  A generator whose successive calls return 5, 6, 7, ... shows that the four bet types
  do not get draws of their own: on the second spin red, black, even and odd all wager
  the 5 of the first call, and the run has made one call.
\<close>

theorem no_strategy_bets_counterexample:
  "trajectory (no_strategy (\<lambda>k. k) [all_win, all_win] 10) Red = Inr [0, 10, 15] \<and>
   trajectory (no_strategy (\<lambda>k. k) [all_win, all_win] 10) Black = Inr [0, 10, 15] \<and>
   trajectory (no_strategy (\<lambda>k. k) [all_win, all_win] 10) Even = Inr [0, 10, 15] \<and>
   trajectory (no_strategy (\<lambda>k. k) [all_win, all_win] 10) Odd = Inr [0, 10, 15] \<and>
   py_randint (\<lambda>k. k) 0 5 20 = Inr 5 \<and> py_randint (\<lambda>k. k) 1 5 20 = Inr 6 \<and>
   py_then (no_strategy_run (\<lambda>k. k) [all_win, all_win] 10) (\<lambda>s. Inr (rng_calls s))
     = Inr 1"
  by (simp add: trajectory_def no_strategy_def no_strategy_run_def no_strategy_init_def
      no_strategy_body_def py_randint_def append_balance_def py_index_def all_win_def)

section \<open>The scenario of four winning spins\<close>

text \<open>
  Claim C8, as amended. On four spins that every bet type wins, with the initial bet 10,
  \<^verbatim>\<open>martingale_strategy\<close>, \<^verbatim>\<open>fibonacci_strategy\<close> and \<^verbatim>\<open>d_alembert_strategy\<close> return the
  trajectory \<open>[0, 10, 20, 30, 40]\<close> for red. \<^verbatim>\<open>no_strategy\<close> wagers 10 on the first spin
  and then the values \<open>b2\<close>, \<open>b3\<close>, \<open>b4\<close> of its three calls \<^verbatim>\<open>random.randint(5, 20)\<close>, so
  its trajectory for red is \<open>[0, 10, 20, 30, 40]\<close> exactly when all three calls return 10.
\<close>

theorem all_win_scenario:
  "trajectory (martingale_strategy [all_win, all_win, all_win, all_win] 10) Red
     = Inr [0, 10, 20, 30, 40] \<and>
   trajectory (fibonacci_strategy [all_win, all_win, all_win, all_win] 10) Red
     = Inr [0, 10, 20, 30, 40] \<and>
   trajectory (d_alembert_strategy [all_win, all_win, all_win, all_win] 10) Red
     = Inr [0, 10, 20, 30, 40] \<and>
   (\<exists>b2 b3 b4.
      py_randint entropy 0 5 20 = Inr b2 \<and> py_randint entropy 1 5 20 = Inr b3 \<and>
      py_randint entropy 2 5 20 = Inr b4 \<and>
      trajectory (no_strategy entropy [all_win, all_win, all_win, all_win] 10) Red
        = Inr [0, 10, 10 + b2, 10 + b2 + b3, 10 + b2 + b3 + b4] \<and>
      (trajectory (no_strategy entropy [all_win, all_win, all_win, all_win] 10) Red
         = Inr [0, 10, 20, 30, 40])
        = (b2 = 10 \<and> b3 = 10 \<and> b4 = 10))"
proof -
  have m: "trajectory (martingale_strategy [all_win, all_win, all_win, all_win] 10) Red
     = Inr [0, 10, 20, 30, 40]"
    by (simp add: trajectory_def martingale_strategy_def martingale_run_def bet_vars_init_def
        bet_types_def martingale_body_def append_balance_def py_index_def all_win_def)
  have f: "trajectory (fibonacci_strategy [all_win, all_win, all_win, all_win] 10) Red
     = Inr [0, 10, 20, 30, 40]"
    by (simp add: trajectory_def fibonacci_strategy_def fibonacci_run_def fib_vars_init_def
        bet_types_def fibonacci_body_def extend_sequence_def append_balance_def py_index_def
        all_win_def)
  have d: "trajectory (d_alembert_strategy [all_win, all_win, all_win, all_win] 10) Red
     = Inr [0, 10, 20, 30, 40]"
    by (simp add: trajectory_def d_alembert_strategy_def d_alembert_run_def bet_vars_init_def
        bet_types_def d_alembert_body_def append_balance_def py_index_def all_win_def)
  obtain b2 b3 b4 where b: "py_randint entropy 0 5 20 = Inr b2"
    "py_randint entropy (Suc 0) 5 20 = Inr b3" "py_randint entropy (Suc (Suc 0)) 5 20 = Inr b4"
    by (simp add: py_randint_5_20)
  have n: "trajectory (no_strategy entropy [all_win, all_win, all_win, all_win] 10) Red
     = Inr [0, 10, 10 + b2, 10 + b2 + b3, 10 + b2 + b3 + b4]"
    by (simp add: trajectory_def no_strategy_def no_strategy_run_def no_strategy_init_def
        no_strategy_body_def b Let_def append_balance_def py_index_def all_win_def)
  have e: "(trajectory (no_strategy entropy [all_win, all_win, all_win, all_win] 10) Red
      = Inr [0, 10, 20, 30, 40])
     = (b2 = 10 \<and> b3 = 10 \<and> b4 = 10)"
    unfolding n by auto
  have b': "py_randint entropy 0 5 20 = Inr b2" "py_randint entropy 1 5 20 = Inr b3"
    "py_randint entropy 2 5 20 = Inr b4"
    using b by (simp_all add: eval_nat_numeral)
  have "\<exists>b2 b3 b4.
      py_randint entropy 0 5 20 = Inr b2 \<and> py_randint entropy 1 5 20 = Inr b3 \<and>
      py_randint entropy 2 5 20 = Inr b4 \<and>
      trajectory (no_strategy entropy [all_win, all_win, all_win, all_win] 10) Red
        = Inr [0, 10, 10 + b2, 10 + b2 + b3, 10 + b2 + b3 + b4] \<and>
      (trajectory (no_strategy entropy [all_win, all_win, all_win, all_win] 10) Red
         = Inr [0, 10, 20, 30, 40])
        = (b2 = 10 \<and> b3 = 10 \<and> b4 = 10)"
    by (intro exI [of _ b2] exI [of _ b3] exI [of _ b4] conjI)
      (rule b'(1), rule b'(2), rule b'(3), rule n, rule e)
  with m f d show ?thesis by (intro conjI)
qed

text \<open>
  A generator whose every call returns 5 gives \<^verbatim>\<open>no_strategy\<close> another trajectory.
\<close>

theorem all_win_scenario_counterexample:
  "py_randint (\<lambda>k. 0) 0 5 20 = Inr 5 \<and>
   trajectory (no_strategy (\<lambda>k. 0) [all_win, all_win, all_win, all_win] 10) Red
     = Inr [0, 10, 15, 20, 25]"
  by (simp add: trajectory_def no_strategy_def no_strategy_run_def no_strategy_init_def
      no_strategy_body_def py_randint_def append_balance_def py_index_def all_win_def)

section \<open>The shape of the trajectories\<close>

lemma martingale_shape:
  "\<exists>t. trajectory (martingale_strategy data ib) bt = Inr t \<and>
     length t = length data + 1 \<and> t ! 0 = 0"
proof -
  let ?step = "\<lambda>r t. martingale_track ib (bet_win r bt) t"
  obtain s where s: "martingale_run data ib = Inr s"
    "\<forall>j. bet_track s j = foldl (\<lambda>t r. martingale_track ib (bet_win r j) t) ([0], ib) data"
    using martingale_run_track [of data ib] by blast
  have "balances s bt = fst (bet_track s bt)" by (simp add: bet_track_def)
  also have "\<dots> = fst (foldl (\<lambda>t r. ?step r t) ([0], ib) data)"
    using s(2) by simp
  finally have b: "balances s bt = fst (foldl (\<lambda>t r. ?step r t) ([0], ib) data)" .
  have "length (balances s bt) = length data + 1 \<and> balances s bt ! 0 = 0"
    unfolding b by (rule track_shape) (simp add: martingale_track_def)
  with s(1) show ?thesis by (simp add: trajectory_def martingale_strategy_def)
qed

lemma d_alembert_shape:
  "\<exists>t. trajectory (d_alembert_strategy data ib) bt = Inr t \<and>
     length t = length data + 1 \<and> t ! 0 = 0"
proof -
  let ?step = "\<lambda>r t. d_alembert_track ib (bet_win r bt) t"
  obtain s where s: "d_alembert_run data ib = Inr s"
    "\<forall>j. bet_track s j = foldl (\<lambda>t r. d_alembert_track ib (bet_win r j) t) ([0], ib) data"
    using d_alembert_run_track [of data ib] by blast
  have "balances s bt = fst (bet_track s bt)" by (simp add: bet_track_def)
  also have "\<dots> = fst (foldl (\<lambda>t r. ?step r t) ([0], ib) data)"
    using s(2) by simp
  finally have b: "balances s bt = fst (foldl (\<lambda>t r. ?step r t) ([0], ib) data)" .
  have "length (balances s bt) = length data + 1 \<and> balances s bt ! 0 = 0"
    unfolding b by (rule track_shape) (simp add: d_alembert_track_def)
  with s(1) show ?thesis by (simp add: trajectory_def d_alembert_strategy_def)
qed

lemma fibonacci_shape:
  "\<exists>t. trajectory (fibonacci_strategy data ib) bt = Inr t \<and>
     length t = length data + 1 \<and> t ! 0 = 0"
proof -
  let ?step = "\<lambda>r t. fib_track (\<lambda>x. x) ib (bet_win r bt) t"
  obtain s where s: "fibonacci_run data ib = Inr s"
    "\<forall>j. fib_track_of s j = foldl (\<lambda>t r. fib_track (\<lambda>x. x) ib (bet_win r j) t) ([0], [1, 1], 0) data"
    using fibonacci_run_track [of data ib] by blast
  have "fib_balances s bt = fst (fib_track_of s bt)" by (simp add: fib_track_of_def)
  also have "\<dots> = fst (foldl (\<lambda>t r. ?step r t) ([0], [1, 1], 0) data)"
    using s(2) by simp
  finally have b: "fib_balances s bt = fst (foldl (\<lambda>t r. ?step r t) ([0], [1, 1], 0) data)" .
  have "length (fib_balances s bt) = length data + 1 \<and> fib_balances s bt ! 0 = 0"
    unfolding b by (rule track_shape) (simp add: fib_track_def Let_def)
  with s(1) show ?thesis by (simp add: trajectory_def fibonacci_strategy_def)
qed

lemma no_strategy_shape:
  "\<exists>t. trajectory (no_strategy entropy data ib) bt = Inr t \<and>
     length t = length data + 1 \<and> t ! 0 = 0"
  using no_strategy_run_shape [of entropy data ib]
  by (auto simp: trajectory_def no_strategy_def)

lemma for_each_unchanged:
  "(\<And>s x. body s x = Inr s) \<Longrightarrow> for_each xs body s = Inr s"
  by (induction xs) simp_all

lemma limit_empty_data:
  assumes "L \<in> set table_limits"
  shows "limit_trajectory (martingale_strategy_with_table_limits [] ib table_limits) L bt = Inr [0]"
    and "limit_trajectory (fibonacci_strategy_with_table_limits [] ib table_limits) L bt = Inr [0]"
proof -
  have "martingale_strategy_with_table_limits [] ib table_limits = Inr (results_init table_limits)"
    unfolding martingale_strategy_with_table_limits_def
    by (rule for_each_unchanged)
      (simp add: martingale_limit_iteration_def martingale_limit_run_def)
  then show "limit_trajectory (martingale_strategy_with_table_limits [] ib table_limits) L bt
      = Inr [0]"
    using assms by (simp add: limit_trajectory_def py_lookup_def results_init_lookup)
  have "fibonacci_strategy_with_table_limits [] ib table_limits = Inr (results_init table_limits)"
    unfolding fibonacci_strategy_with_table_limits_def
    by (rule for_each_unchanged)
      (simp add: fibonacci_limit_iteration_def fibonacci_limit_run_def)
  then show "limit_trajectory (fibonacci_strategy_with_table_limits [] ib table_limits) L bt
      = Inr [0]"
    using assms by (simp add: limit_trajectory_def py_lookup_def results_init_lookup)
qed

lemma martingale_limit_shape:
  assumes "L \<in> set table_limits"
  shows "\<exists>t. limit_trajectory (martingale_strategy_with_table_limits data ib table_limits) L bt
      = Inr t \<and> length t = length data * count_list table_limits L + 1 \<and> t ! 0 = 0"
proof -
  have rdy0: "\<forall>k \<in> set table_limits. results_ready (results_init table_limits) k"
    by (simp add: results_init_ready)
  have sub: "set table_limits \<subseteq> set table_limits" by simp
  from passes_count [of "martingale_limit_iteration data ib" "length data",
      OF martingale_iteration_appends sub rdy0]
  obtain res where res: "martingale_strategy_with_table_limits data ib table_limits = Inr res"
    "\<forall>k \<in> set table_limits. results_ready res k"
    "\<forall>k b. \<exists>ys. balances_at res k b = balances_at (results_init table_limits) k b @ ys \<and>
       length ys = length data * count_list table_limits k"
    unfolding martingale_strategy_with_table_limits_def by blast
  from res(3) obtain ys
    where "balances_at res L bt = balances_at (results_init table_limits) L bt @ ys"
      "length ys = length data * count_list table_limits L"
    by blast
  with assms have "length (balances_at res L bt) = length data * count_list table_limits L + 1 \<and>
      balances_at res L bt ! 0 = 0"
    by (simp add: balances_at_def results_init_lookup)
  with res(1,2) assms show ?thesis by (simp add: limit_trajectory_ready)
qed

lemma fibonacci_limit_shape:
  assumes "L \<in> set table_limits"
  shows "\<exists>t. limit_trajectory (fibonacci_strategy_with_table_limits data ib table_limits) L bt
      = Inr t \<and> length t = length data * count_list table_limits L + 1 \<and> t ! 0 = 0"
proof -
  have rdy0: "\<forall>k \<in> set table_limits. results_ready (results_init table_limits) k"
    by (simp add: results_init_ready)
  have sub: "set table_limits \<subseteq> set table_limits" by simp
  from passes_count [of "fibonacci_limit_iteration data ib" "length data",
      OF fibonacci_iteration_appends sub rdy0]
  obtain res where res: "fibonacci_strategy_with_table_limits data ib table_limits = Inr res"
    "\<forall>k \<in> set table_limits. results_ready res k"
    "\<forall>k b. \<exists>ys. balances_at res k b = balances_at (results_init table_limits) k b @ ys \<and>
       length ys = length data * count_list table_limits k"
    unfolding fibonacci_strategy_with_table_limits_def by blast
  from res(3) obtain ys
    where "balances_at res L bt = balances_at (results_init table_limits) L bt @ ys"
      "length ys = length data * count_list table_limits L"
    by blast
  with assms have "length (balances_at res L bt) = length data * count_list table_limits L + 1 \<and>
      balances_at res L bt ! 0 = 0"
    by (simp add: balances_at_def results_init_lookup)
  with res(1,2) assms show ?thesis by (simp add: limit_trajectory_ready)
qed

text \<open>
  The shape of every trajectory. For every spin sequence, initial bet and bet type, the
  trajectory that \<^verbatim>\<open>no_strategy\<close> (with any generator), \<^verbatim>\<open>martingale_strategy\<close>,
  \<^verbatim>\<open>fibonacci_strategy\<close> and \<^verbatim>\<open>d_alembert_strategy\<close> return has one entry more than there are
  spins and starts with 0. For the two variants with table limits, and any list of
  limits, the trajectory of a limit of the list starts with 0 and has one entry more
  than the number of spins times the number of times the limit is listed: every pass
  for the limit appends to the one entry \<^verbatim>\<open>results\<close> holds for it. So a limit that is
  listed once has one entry more than there are spins, whatever else the list repeats.
\<close>

lemma trajectory_shape:
  "(\<exists>t. trajectory (no_strategy entropy data initial_bet) bt = Inr t \<and>
      length t = length data + 1 \<and> t ! 0 = 0) \<and>
   (\<exists>t. trajectory (martingale_strategy data initial_bet) bt = Inr t \<and>
      length t = length data + 1 \<and> t ! 0 = 0) \<and>
   (\<exists>t. trajectory (fibonacci_strategy data initial_bet) bt = Inr t \<and>
      length t = length data + 1 \<and> t ! 0 = 0) \<and>
   (\<exists>t. trajectory (d_alembert_strategy data initial_bet) bt = Inr t \<and>
      length t = length data + 1 \<and> t ! 0 = 0) \<and>
   (L \<in> set table_limits \<longrightarrow>
      (\<exists>t. limit_trajectory
           (martingale_strategy_with_table_limits data initial_bet table_limits) L bt = Inr t \<and>
         length t = length data * count_list table_limits L + 1 \<and> t ! 0 = 0 \<and>
         (count_list table_limits L = 1 \<longrightarrow> length t = length data + 1)) \<and>
      (\<exists>t. limit_trajectory
           (fibonacci_strategy_with_table_limits data initial_bet table_limits) L bt = Inr t \<and>
         length t = length data * count_list table_limits L + 1 \<and> t ! 0 = 0 \<and>
         (count_list table_limits L = 1 \<longrightarrow> length t = length data + 1)))"
proof (intro conjI impI)
  show "\<exists>t. trajectory (no_strategy entropy data initial_bet) bt = Inr t \<and>
      length t = length data + 1 \<and> t ! 0 = 0"
    by (rule no_strategy_shape)
  show "\<exists>t. trajectory (martingale_strategy data initial_bet) bt = Inr t \<and>
      length t = length data + 1 \<and> t ! 0 = 0"
    by (rule martingale_shape)
  show "\<exists>t. trajectory (fibonacci_strategy data initial_bet) bt = Inr t \<and>
      length t = length data + 1 \<and> t ! 0 = 0"
    by (rule fibonacci_shape)
  show "\<exists>t. trajectory (d_alembert_strategy data initial_bet) bt = Inr t \<and>
      length t = length data + 1 \<and> t ! 0 = 0"
    by (rule d_alembert_shape)
next
  assume h: "L \<in> set table_limits"
  from martingale_limit_shape [OF h, of data initial_bet bt]
  show "\<exists>t. limit_trajectory
           (martingale_strategy_with_table_limits data initial_bet table_limits) L bt = Inr t \<and>
         length t = length data * count_list table_limits L + 1 \<and> t ! 0 = 0 \<and>
         (count_list table_limits L = 1 \<longrightarrow> length t = length data + 1)"
    by auto
  from fibonacci_limit_shape [OF h, of data initial_bet bt]
  show "\<exists>t. limit_trajectory
           (fibonacci_strategy_with_table_limits data initial_bet table_limits) L bt = Inr t \<and>
         length t = length data * count_list table_limits L + 1 \<and> t ! 0 = 0 \<and>
         (count_list table_limits L = 1 \<longrightarrow> length t = length data + 1)"
    by auto
qed

text \<open>On an empty spin sequence every trajectory is \<open>[0]\<close>, for any list of limits.\<close>

lemma trajectory_empty:
  "trajectory (no_strategy entropy [] initial_bet) bt = Inr [0] \<and>
   trajectory (martingale_strategy [] initial_bet) bt = Inr [0] \<and>
   trajectory (fibonacci_strategy [] initial_bet) bt = Inr [0] \<and>
   trajectory (d_alembert_strategy [] initial_bet) bt = Inr [0] \<and>
   (L \<in> set table_limits \<longrightarrow>
      limit_trajectory (martingale_strategy_with_table_limits [] initial_bet table_limits) L bt
        = Inr [0] \<and>
      limit_trajectory (fibonacci_strategy_with_table_limits [] initial_bet table_limits) L bt
        = Inr [0])"
proof (intro conjI impI)
  show "trajectory (no_strategy entropy [] initial_bet) bt = Inr [0]"
    by (simp add: trajectory_def no_strategy_def no_strategy_run_def no_strategy_init_def)
  show "trajectory (martingale_strategy [] initial_bet) bt = Inr [0]"
    by (simp add: trajectory_def martingale_strategy_def martingale_run_def bet_vars_init_def)
  show "trajectory (fibonacci_strategy [] initial_bet) bt = Inr [0]"
    by (simp add: trajectory_def fibonacci_strategy_def fibonacci_run_def fib_vars_init_def)
  show "trajectory (d_alembert_strategy [] initial_bet) bt = Inr [0]"
    by (simp add: trajectory_def d_alembert_strategy_def d_alembert_run_def bet_vars_init_def)
next
  assume h: "L \<in> set table_limits"
  show "limit_trajectory (martingale_strategy_with_table_limits [] initial_bet table_limits) L bt
        = Inr [0]"
    using h by (rule limit_empty_data)
  show "limit_trajectory (fibonacci_strategy_with_table_limits [] initial_bet table_limits) L bt
        = Inr [0]"
    using h by (rule limit_empty_data)
qed

text \<open>
  Claim C1. The claim holds for the four plain simulators and for every limit that the
  list names once (\<open>trajectory_shape\<close>, \<open>trajectory_empty\<close>), but not for each table limit
  of the variants: the function takes a list, and for a limit that the list names twice
  the trajectory it returns is not the balance over the spins. On the one losing spin
  below, with the initial bet 5 and the limits \<open>[10, 10]\<close>, \<^verbatim>\<open>results\<close> holds one entry for
  the limit 10 and both passes append to it, the second starting from the balance the
  first ended with. Either variant returns three balances for red, where the number of
  spins plus 1 is two.
\<close>

theorem trajectory_repeated_limit:
  "limit_trajectory (martingale_strategy_with_table_limits [all_loss] 5 [10, 10]) 10 Red
     = Inr [0, - 5, - 10] \<and>
   limit_trajectory (fibonacci_strategy_with_table_limits [all_loss] 5 [10, 10]) 10 Red
     = Inr [0, - 5, - 10] \<and>
   length [0, - 5, - 10 :: int] \<noteq> length [all_loss] + 1"
  by (simp add: limit_trajectory_def martingale_strategy_with_table_limits_def
      martingale_limit_iteration_def martingale_limit_run_def
      fibonacci_strategy_with_table_limits_def fibonacci_limit_iteration_def
      fibonacci_limit_run_def fibonacci_limit_body_def extend_sequence_def
      results_init_def bet_types_def
      martingale_limit_body_def append_result_def py_lookup_def append_balance_def
      py_index_def all_loss_def)

end
